theory Spec2Isabelle
  imports Main "HOL-Library.Word"
begin

unbundle bit_operations_syntax

section \<open>Data model of gps_utils.py\<close>

text \<open>
  A Python byte string is a list of 8-bit words. Python integers are unbounded and are
  modelled as \<open>int\<close>. An exception raised by the code is a value of \<open>error\<close>,
  carried on the left of a sum.
\<close>

type_synonym byte = "8 word"
type_synonym bytes = "byte list"

datatype error = StructError | ParseError | TypeError

text \<open>
  What a call of \<open>_next_msg\<close> can return: Python's \<open>None\<close>, a byte string, or the
  sentence object built by the external NMEA decoder (type \<open>'n\<close>).
\<close>

datatype 'n pyval = PyNone | Bytes bytes | Nmea 'n

record UBXMessage =
  msg_id :: bytes
  payload :: bytes

record UbxNmeaParser =
  buf :: bytes

subsection \<open>Library functions the code calls\<close>

text \<open>\<open>struct.pack('<H', n)\<close>: two bytes, low byte first; raises outside 0..65535.\<close>

definition struct_pack_H :: "int \<Rightarrow> error + bytes" where
  "struct_pack_H n =
     (if 0 \<le> n \<and> n \<le> 65535 then Inr [word_of_int (n mod 256), word_of_int (n div 256)]
      else Inl StructError)"

text \<open>\<open>struct.pack('BB', a, b)\<close>: one byte each; raises outside 0..255.\<close>

definition struct_pack_BB :: "int \<Rightarrow> int \<Rightarrow> error + bytes" where
  "struct_pack_BB a b =
     (if 0 \<le> a \<and> a \<le> 255 \<and> 0 \<le> b \<and> b \<le> 255 then Inr [word_of_int a, word_of_int b]
      else Inl StructError)"

text \<open>\<open>struct.unpack('<H', d)[0]\<close>: raises unless \<open>d\<close> has exactly two bytes.\<close>

fun struct_unpack_H :: "bytes \<Rightarrow> error + int" where
  "struct_unpack_H [lo, hi] = Inr (uint lo + 256 * uint hi)"
| "struct_unpack_H _ = Inl StructError"

text \<open>
  \<open>bytes.find(sub)\<close>: the lowest index at which \<open>sub\<close> occurs, or \<open>-1\<close>.
  \<open>find_from\<close> carries the index of the head of the part still to be searched.
\<close>

fun find_from :: "nat \<Rightarrow> bytes \<Rightarrow> bytes \<Rightarrow> int" where
  "find_from i [] sub = (if sub = [] then int i else -1)"
| "find_from i (x # xs) sub =
     (if take (length sub) (x # xs) = sub then int i else find_from (Suc i) xs sub)"

definition find_bytes :: "bytes \<Rightarrow> bytes \<Rightarrow> int" where
  "find_bytes b sub = find_from 0 b sub"

text \<open>Python slices \<open>b[:n]\<close> and \<open>b[n:]\<close>; a negative \<open>n\<close> counts from the end.\<close>

definition slice_to :: "bytes \<Rightarrow> int \<Rightarrow> bytes" where
  "slice_to b n = (if n < 0 then take (nat (int (length b) + n)) b else take (nat n) b)"

definition slice_from :: "bytes \<Rightarrow> int \<Rightarrow> bytes" where
  "slice_from b n = (if n < 0 then drop (nat (int (length b) + n)) b else drop (nat n) b)"

text \<open>\<open>iter_ints\<close>: the integer values of the bytes, in order (both Python versions).\<close>

definition iter_ints :: "bytes \<Rightarrow> int list" where
  "iter_ints b = map uint b"

section \<open>UBX codec\<close>

text \<open>The loop body of \<open>ubx_checksum\<close>, on the pair of accumulators.\<close>

definition checksum_step :: "int \<times> int \<Rightarrow> int \<Rightarrow> int \<times> int" where
  "checksum_step ab c =
     (let a = (fst ab + c) AND 255;
          b = (snd ab + a) AND 255
      in (a, b))"

definition ubx_checksum :: "bytes \<Rightarrow> error + bytes" where
  "ubx_checksum msg =
     (let ab = foldl checksum_step (0, 0) (iter_ints msg)
      in struct_pack_BB (fst ab) (snd ab))"

definition serialise :: "UBXMessage \<Rightarrow> error + bytes" where
  "serialise m =
     (case struct_pack_H (int (length (payload m))) of
        Inl e \<Rightarrow> Inl e
      | Inr len \<Rightarrow>
          (let msg_body = msg_id m @ len @ payload m in
           case ubx_checksum msg_body of
             Inl e \<Rightarrow> Inl e
           | Inr checksum \<Rightarrow> Inr ([0xB5, 0x62] @ msg_body @ checksum @ [0x10, 0x13])))"

text \<open>
  The checksum as the specification words it: two accumulators, each reduced modulo 256
  after every addition, returned as the pair \<open>(a, b)\<close>.
\<close>

fun spec_checksum :: "int \<times> int \<Rightarrow> int list \<Rightarrow> int \<times> int" where
  "spec_checksum (a, b) [] = (a, b)"
| "spec_checksum (a, b) (c # cs) = spec_checksum ((a + c) mod 256, (b + (a + c) mod 256) mod 256) cs"

section \<open>Stream demultiplexer\<close>

definition feed :: "UbxNmeaParser \<Rightarrow> bytes \<Rightarrow> UbxNmeaParser" where
  "feed s data = s\<lparr>buf := buf s @ data\<rparr>"

definition take_chunk :: "UbxNmeaParser \<Rightarrow> int \<Rightarrow> bytes \<times> UbxNmeaParser" where
  "take_chunk s n = (slice_to (buf s) n, s\<lparr>buf := slice_from (buf s) n\<rparr>)"

text \<open>
  \<open>_take_nmea\<close>. The decoder \<open>NMEASentence.parse\<close> belongs to the external package
  pynmea2 and is a parameter: it returns a sentence object or raises. The chunk has left
  the buffer before the decoder runs, so an exception leaves the shortened buffer behind.
\<close>

definition take_nmea ::
  "(bytes \<Rightarrow> error + 'n) \<Rightarrow> UbxNmeaParser \<Rightarrow> (error + 'n pyval) \<times> UbxNmeaParser" where
  "take_nmea parse s =
     (let crlf_ix = find_bytes (buf s) [0x0D, 0x0A] in
      if crlf_ix = -1 then (Inr PyNone, s)
      else (let (data, s') = take_chunk s (crlf_ix + 2) in
            case parse data of
              Inl e \<Rightarrow> (Inl e, s')
            | Inr n \<Rightarrow> (Inr (Nmea n), s')))"

text \<open>
  The decoder as the code reaches it under Python 3 (the version the branch on
  \<open>sys.version_info\<close> provides for): \<open>self.buf\<close> is a \<open>bytes\<close> object, so
  \<open>_take_nmea\<close> passes \<open>bytes\<close> to \<open>NMEASentence.parse\<close>, which matches its
  argument against a string pattern; \<open>re\<close> raises \<open>TypeError\<close> for every \<open>bytes\<close>
  argument. Under Python 2 \<open>bytes\<close> is \<open>str\<close> and the decoder decides.
\<close>

definition parse_py3 :: "bytes \<Rightarrow> error + 'n" where
  "parse_py3 data = Inl TypeError"

definition take_ubx :: "UbxNmeaParser \<Rightarrow> (error + 'n pyval) \<times> UbxNmeaParser" where
  "take_ubx s =
     (if int (length (buf s)) < 6 then (Inr PyNone, s)
      else (case struct_unpack_H (slice_to (slice_from (buf s) 4) 2) of
              Inl e \<Rightarrow> (Inl e, s)
            | Inr payload_length \<Rightarrow>
                (let msg_length = payload_length + 8 in
                 if int (length (buf s)) \<ge> msg_length
                 then (let (c, s') = take_chunk s msg_length in (Inr (Bytes c), s'))
                 else (Inr PyNone, s))))"

definition next_msg ::
  "(bytes \<Rightarrow> error + 'n) \<Rightarrow> UbxNmeaParser \<Rightarrow> (error + 'n pyval) \<times> UbxNmeaParser" where
  "next_msg parse s =
     (let nmea_start = find_bytes (buf s) [0x24];
          ubx_start = find_bytes (buf s) [0xB5, 0x62]
      in if nmea_start = 0 then take_nmea parse s
         else if ubx_start = 0 then take_ubx s
         else if nmea_start > 0 \<and> ubx_start > 0
           then (let (c, s') = take_chunk s (min nmea_start ubx_start) in (Inr (Bytes c), s'))
         else if nmea_start > 0
           then (let (c, s') = take_chunk s nmea_start in (Inr (Bytes c), s'))
         else if ubx_start > 0
           then (let (c, s') = take_chunk s ubx_start in (Inr (Bytes c), s'))
         else (Inr PyNone, s))"

text \<open>
  \<open>get_msgs\<close> is \<open>iter(self._next_msg, None)\<close>: the iterator calls \<open>_next_msg\<close>
  and yields what it returns, until a call returns \<open>None\<close>. The model drains the
  iterator: the values yielded in order, the exception that ended the iteration (if one
  was raised by the decoder), and the parser afterwards.
\<close>

function get_msgs ::
  "(bytes \<Rightarrow> error + 'n) \<Rightarrow> UbxNmeaParser \<Rightarrow> 'n pyval list \<times> error option \<times> UbxNmeaParser" where
  "get_msgs parse s =
     (case next_msg parse s of
        (Inl e, s') \<Rightarrow> ([], Some e, s')
      | (Inr v, s') \<Rightarrow>
          if v = PyNone then ([], None, s')
          else (case get_msgs parse s' of (vs, r) \<Rightarrow> (v # vs, r)))"
  by pat_completeness auto

text \<open>
  \<open>__init__\<close>: a fresh parser has an empty buffer.
\<close>

definition init :: UbxNmeaParser where
  "init = \<lparr>buf = []\<rparr>"

text \<open>
  The loop of \<open>test_stream_parser\<close>, on a fresh parser: each chunk read from the file
  is fed and \<open>get_msgs\<close> is drained; an empty chunk (end of file) ends the loop. The
  chunks read are the input. The values the source prints are collected, one list for
  each chunk; an exception raised while draining ends the run.
\<close>

fun stream_loop ::
  "(bytes \<Rightarrow> error + 'n) \<Rightarrow> UbxNmeaParser \<Rightarrow> bytes list \<Rightarrow>
   'n pyval list list \<times> error option \<times> UbxNmeaParser" where
  "stream_loop parse s [] = ([], None, s)"
| "stream_loop parse s (b # bs) =
     (if b = [] then ([], None, s)
      else (case get_msgs parse (feed s b) of
              (msgs, Some e, s') \<Rightarrow> ([msgs], Some e, s')
            | (msgs, None, s') \<Rightarrow>
                (case stream_loop parse s' bs of (out, r) \<Rightarrow> (msgs # out, r))))"

definition test_stream_parser ::
  "(bytes \<Rightarrow> error + 'n) \<Rightarrow> bytes list \<Rightarrow> 'n pyval list list \<times> error option \<times> UbxNmeaParser" where
  "test_stream_parser parse chunks = stream_loop parse init chunks"

subsection \<open>Notions used in the statements\<close>

text \<open>\<open>sub\<close> occurs in \<open>b\<close> at index \<open>j\<close>.\<close>

definition occurs_at :: "bytes \<Rightarrow> bytes \<Rightarrow> nat \<Rightarrow> bool" where
  "occurs_at sub b j = (j + length sub \<le> length b \<and> take (length sub) (drop j b) = sub)"


text \<open>The payload length a buffered UBX header declares: bytes 4 and 5, low byte first.\<close>

definition declared_length :: "bytes \<Rightarrow> nat" where
  "declared_length b = unat (b ! 4) + 256 * unat (b ! 5)"


text \<open>The little-endian 16-bit encoding of a length, as the specification words it.\<close>

definition le_uint16 :: "nat \<Rightarrow> bytes" where
  "le_uint16 n = [word_of_nat (n mod 256), word_of_nat (n div 256)]"

text \<open>
  The kinds of value a caller can receive: a message (an NMEA sentence object, or a byte
  string that starts with the UBX marker), and a noise span (a non-empty byte string
  that contains neither start marker).
\<close>

definition is_message :: "'n pyval \<Rightarrow> bool" where
  "is_message v = (case v of PyNone \<Rightarrow> False | Bytes c \<Rightarrow> take 2 c = [0xB5, 0x62] | Nmea n \<Rightarrow> True)"

definition is_noise :: "'n pyval \<Rightarrow> bool" where
  "is_noise v =
     (case v of
        PyNone \<Rightarrow> False
      | Bytes c \<Rightarrow> c \<noteq> [] \<and> find_bytes c [0x24] = -1 \<and> find_bytes c [0xB5, 0x62] = -1
      | Nmea n \<Rightarrow> False)"

text \<open>
  The number of bytes a detection step skips: the offset of the nearest start marker,
  when no marker is at offset 0 and a marker occurs (the three skip branches of
  \<open>_next_msg\<close>); 0 when the step does not skip.
\<close>

definition skip_length :: "bytes \<Rightarrow> nat" where
  "skip_length b =
     (let nmea_start = find_bytes b [0x24];
          ubx_start = find_bytes b [0xB5, 0x62]
      in if nmea_start = 0 \<or> ubx_start = 0 then 0
         else if nmea_start > 0 \<and> ubx_start > 0 then nat (min nmea_start ubx_start)
         else if nmea_start > 0 then nat nmea_start
         else if ubx_start > 0 then nat ubx_start
         else 0)"

text \<open>
  A well-formed sentence, with its checksum and its CRLF:
  \<^verbatim>\<open>$GPGGA,184353.07,1929.045,S,02410.506,E,1,04,2.6,100.00,M,-33.9,M,,0000*6D\<close>.
\<close>

definition gga_sentence :: bytes where
  "gga_sentence =
    [
     0x24, 0x47, 0x50, 0x47, 0x47, 0x41, 0x2C, 0x31, 0x38, 0x34, 0x33, 0x35,
     0x33, 0x2E, 0x30, 0x37, 0x2C, 0x31, 0x39, 0x32, 0x39, 0x2E, 0x30, 0x34,
     0x35, 0x2C, 0x53, 0x2C, 0x30, 0x32, 0x34, 0x31, 0x30, 0x2E, 0x35, 0x30,
     0x36, 0x2C, 0x45, 0x2C, 0x31, 0x2C, 0x30, 0x34, 0x2C, 0x32, 0x2E, 0x36,
     0x2C, 0x31, 0x30, 0x30, 0x2E, 0x30, 0x30, 0x2C, 0x4D, 0x2C, 0x2D, 0x33,
     0x33, 0x2E, 0x39, 0x2C, 0x4D, 0x2C, 0x2C, 0x30, 0x30, 0x30, 0x30, 0x2A,
     0x36, 0x44, 0x0D, 0x0A]"

text \<open>One step splits the buffer into the part it removes and the part it keeps.\<close>

definition step_ok :: "UbxNmeaParser \<Rightarrow> (error + 'n pyval) \<times> UbxNmeaParser \<Rightarrow> bytes \<Rightarrow> bool" where
  "step_ok s rs c =
     (buf s = c @ buf (snd rs) \<and> snd rs = s\<lparr>buf := buf (snd rs)\<rparr> \<and>
      (fst rs = Inr PyNone) = (c = []) \<and>
      (case fst rs of Inr (Bytes d) \<Rightarrow> d = c | _ \<Rightarrow> True))"


section \<open>Codec\<close>

lemma and_255_mod: "(x::int) AND 255 = x mod 256"
proof -
  have "x AND mask 8 = take_bit 8 x"
    by (simp only: take_bit_eq_mask)
  then show ?thesis
    by (simp add: take_bit_eq_mod mask_eq_exp_minus_1)
qed

lemma foldl_checksum_step:
  "foldl checksum_step (a, b) cs = spec_checksum (a, b) cs"
  by (induction cs arbitrary: a b) (simp_all add: checksum_step_def Let_def and_255_mod)

lemma spec_checksum_range:
  "0 \<le> a \<Longrightarrow> a \<le> 255 \<Longrightarrow> 0 \<le> b \<Longrightarrow> b \<le> 255 \<Longrightarrow>
   0 \<le> fst (spec_checksum (a, b) cs) \<and> fst (spec_checksum (a, b) cs) \<le> 255 \<and>
   0 \<le> snd (spec_checksum (a, b) cs) \<and> snd (spec_checksum (a, b) cs) \<le> 255"
proof (induction cs arbitrary: a b)
  case Nil
  then show ?case by simp
next
  case (Cons c cs)
  have "0 \<le> (a + c) mod 256" "(a + c) mod 256 \<le> 255"
       "0 \<le> (b + (a + c) mod 256) mod 256" "(b + (a + c) mod 256) mod 256 \<le> 255"
    by simp_all
  from Cons.IH [OF this] show ?case by simp
qed

text \<open>
  C2. For every byte sequence, \<open>ubx_checksum\<close> returns (without raising) the two bytes
  \<open>(a, b)\<close> of the reference algorithm of the specification: start from 0 and 0, and for
  each byte from left to right set a to (a + c) mod 256, then b to (b + a) mod 256.
\<close>

theorem ubx_checksum_refines_spec:
  "ubx_checksum msg =
     Inr [word_of_int (fst (spec_checksum (0, 0) (map uint msg))),
          word_of_int (snd (spec_checksum (0, 0) (map uint msg)))]"
proof -
  have "0 \<le> fst (spec_checksum (0, 0) (map uint msg)) \<and>
        fst (spec_checksum (0, 0) (map uint msg)) \<le> 255 \<and>
        0 \<le> snd (spec_checksum (0, 0) (map uint msg)) \<and>
        snd (spec_checksum (0, 0) (map uint msg)) \<le> 255"
    by (rule spec_checksum_range) simp_all
  then show ?thesis
    by (simp add: ubx_checksum_def iter_ints_def Let_def foldl_checksum_step struct_pack_BB_def)
qed

text \<open>The bytes 01 02 03 of the specification's test: the accumulators end at 6 and 10.\<close>

theorem ubx_checksum_refines_spec_witness:
  "ubx_checksum [0x01, 0x02, 0x03] = Inr [0x06, 0x0A]"
  using ubx_checksum_refines_spec [of "[0x01, 0x02, 0x03]"] by simp

section \<open>Searching the buffer\<close>

lemma occurs_at_Nil: "occurs_at sub [] j = (sub = [] \<and> j = 0)"
  by (auto simp: occurs_at_def)

lemma occurs_at_Cons_0: "occurs_at sub (x # xs) 0 = (take (length sub) (x # xs) = sub)"
proof -
  have "take (length sub) (x # xs) = sub \<Longrightarrow> length sub \<le> length (x # xs)"
    by (metis length_take min.cobounded1)
  then show ?thesis by (auto simp: occurs_at_def)
qed

lemma occurs_at_Cons_Suc: "occurs_at sub (x # xs) (Suc j) = occurs_at sub xs j"
  by (simp add: occurs_at_def)

lemma find_from_none: "(find_from i b sub = -1) = (\<forall>j. \<not> occurs_at sub b j)"
proof (induction b arbitrary: i)
  case Nil
  show ?case by (simp add: occurs_at_Nil)
next
  case (Cons x xs)
  show ?case
  proof (cases "take (length sub) (x # xs) = sub")
    case True
    then have "occurs_at sub (x # xs) 0" by (simp only: occurs_at_Cons_0)
    with True show ?thesis by auto
  next
    case False
    have "(\<forall>j. \<not> occurs_at sub (x # xs) j) = (\<forall>j. \<not> occurs_at sub xs j)"
    proof
      assume h: "\<forall>j. \<not> occurs_at sub (x # xs) j"
      show "\<forall>j. \<not> occurs_at sub xs j"
      proof
        fix j from h have "\<not> occurs_at sub (x # xs) (Suc j)" by blast
        then show "\<not> occurs_at sub xs j" by (simp add: occurs_at_Cons_Suc)
      qed
    next
      assume h: "\<forall>j. \<not> occurs_at sub xs j"
      show "\<forall>j. \<not> occurs_at sub (x # xs) j"
      proof
        fix j show "\<not> occurs_at sub (x # xs) j"
        proof (cases j)
          case 0 with False show ?thesis by (simp add: occurs_at_Cons_0)
        next
          case (Suc k) with h show ?thesis by (simp add: occurs_at_Cons_Suc)
        qed
      qed
    qed
    with False Cons.IH [of "Suc i"] show ?thesis by simp
  qed
qed

lemma find_from_some:
  "find_from i b sub \<noteq> -1 \<Longrightarrow>
   \<exists>k. find_from i b sub = int (i + k) \<and> occurs_at sub b k \<and> (\<forall>j<k. \<not> occurs_at sub b j)"
proof (induction b arbitrary: i)
  case Nil
  then show ?case by (auto simp: occurs_at_Nil split: if_splits)
next
  case (Cons x xs)
  show ?case
  proof (cases "take (length sub) (x # xs) = sub")
    case True
    then have "occurs_at sub (x # xs) 0" by (simp only: occurs_at_Cons_0)
    with True show ?thesis by auto
  next
    case False
    with Cons.prems have "find_from (Suc i) xs sub \<noteq> -1" by simp
    from Cons.IH [OF this] obtain k where
      k: "find_from (Suc i) xs sub = int (Suc i + k)" "occurs_at sub xs k"
         "\<forall>j<k. \<not> occurs_at sub xs j" by blast
    have "\<forall>j<Suc k. \<not> occurs_at sub (x # xs) j"
    proof (intro allI impI)
      fix j assume "j < Suc k"
      show "\<not> occurs_at sub (x # xs) j"
      proof (cases j)
        case 0 with False show ?thesis by (simp add: occurs_at_Cons_0)
      next
        case (Suc l) with k(3) \<open>j < Suc k\<close> show ?thesis by (simp add: occurs_at_Cons_Suc)
      qed
    qed
    moreover have "occurs_at sub (x # xs) (Suc k)" using k(2) by (simp only: occurs_at_Cons_Suc)
    moreover have "find_from i (x # xs) sub = int (i + Suc k)" using False k(1) by simp
    ultimately show ?thesis by blast
  qed
qed

lemma find_bytes_none: "(find_bytes b sub = -1) = (\<forall>j. \<not> occurs_at sub b j)"
  by (simp add: find_bytes_def find_from_none)

lemma find_bytes_some:
  "find_bytes b sub \<noteq> -1 \<Longrightarrow>
   \<exists>k. find_bytes b sub = int k \<and> occurs_at sub b k \<and> (\<forall>j<k. \<not> occurs_at sub b j)"
  using find_from_some [of 0 b sub] by (simp add: find_bytes_def)

lemma find_bytes_first:
  "occurs_at sub b k \<Longrightarrow> \<forall>j<k. \<not> occurs_at sub b j \<Longrightarrow> find_bytes b sub = int k"
proof -
  assume a: "occurs_at sub b k" "\<forall>j<k. \<not> occurs_at sub b j"
  then have "find_bytes b sub \<noteq> -1" by (auto simp: find_bytes_none)
  from find_bytes_some [OF this] obtain k' where
    k': "find_bytes b sub = int k'" "occurs_at sub b k'" "\<forall>j<k'. \<not> occurs_at sub b j" by blast
  have "k' = k" using a k'(2,3) by (meson linorder_neqE_nat)
  with k'(1) show ?thesis by simp
qed

lemma find_bytes_zero: "(find_bytes b sub = 0) = occurs_at sub b 0"
proof
  assume h: "find_bytes b sub = 0"
  then have "find_bytes b sub \<noteq> -1" by simp
  from find_bytes_some [OF this] h show "occurs_at sub b 0" by auto
next
  assume "occurs_at sub b 0"
  then show "find_bytes b sub = 0" using find_bytes_first [of sub b 0] by simp
qed

lemma find_bytes_cases:
  obtains (absent) "find_bytes b sub = -1" "\<forall>j. \<not> occurs_at sub b j"
  | (present) k where "find_bytes b sub = int k" "occurs_at sub b k" "\<forall>j<k. \<not> occurs_at sub b j"
  using find_bytes_some [of b sub] find_bytes_none [of b sub] by blast

lemma find_bytes_bound:
  "find_bytes b sub = int k \<Longrightarrow> k + length sub \<le> length b"
  by (rule find_bytes_cases [of b sub]) (auto simp: occurs_at_def)

lemma take_chunk_nonneg:
  "0 \<le> n \<Longrightarrow> take_chunk s n = (take (nat n) (buf s), s\<lparr>buf := drop (nat n) (buf s)\<rparr>)"
  by (simp add: take_chunk_def slice_to_def slice_from_def)

lemma take_chunk_nat:
  "take_chunk s (int k) = (take k (buf s), s\<lparr>buf := drop k (buf s)\<rparr>)"
  by (simp add: take_chunk_nonneg)

lemma take_nmea_absent:
  "find_bytes (buf s) [0x0D, 0x0A] = -1 \<Longrightarrow> take_nmea parse s = (Inr PyNone, s)"
  by (simp add: take_nmea_def)

lemma take_nmea_present:
  "find_bytes (buf s) [0x0D, 0x0A] = int k \<Longrightarrow>
   take_nmea parse s =
     (case parse (take (k + 2) (buf s)) of Inl e \<Rightarrow> Inl e | Inr n \<Rightarrow> Inr (Nmea n),
      s\<lparr>buf := drop (k + 2) (buf s)\<rparr>)"
proof -
  assume h: "find_bytes (buf s) [0x0D, 0x0A] = int k"
  have "take_chunk s (int k + 2) = (take (k + 2) (buf s), s\<lparr>buf := drop (k + 2) (buf s)\<rparr>)"
    using take_chunk_nat [of s "k + 2"] by (simp add: add.commute)
  with h show ?thesis
    by (simp add: take_nmea_def Let_def split: sum.splits)
qed

lemma slice_4_6:
  "6 \<le> length b \<Longrightarrow> slice_to (slice_from b 4) 2 = [b ! 4, b ! 5]"
proof -
  assume h: "6 \<le> length b"
  have "take 2 (drop 4 b) = [b ! 4, b ! 5]"
  proof (rule nth_equalityI)
    show "length (take 2 (drop 4 b)) = length [b ! 4, b ! 5]" using h by simp
  next
    fix i assume "i < length (take 2 (drop 4 b))"
    then have "i < 2" by simp
    then have "i = 0 \<or> i = 1" by arith
    then show "take 2 (drop 4 b) ! i = [b ! 4, b ! 5] ! i" using h by auto
  qed
  then show ?thesis by (simp add: slice_to_def slice_from_def)
qed

lemma take_ubx_short:
  "length (buf s) < 6 \<Longrightarrow> take_ubx s = (Inr PyNone, s)"
  by (simp add: take_ubx_def)

lemma take_ubx_long:
  "6 \<le> length (buf s) \<Longrightarrow>
   take_ubx s =
     (if declared_length (buf s) + 8 \<le> length (buf s)
      then (Inr (Bytes (take (declared_length (buf s) + 8) (buf s))),
            s\<lparr>buf := drop (declared_length (buf s) + 8) (buf s)\<rparr>)
      else (Inr PyNone, s))"
proof -
  assume h: "6 \<le> length (buf s)"
  let ?L = "declared_length (buf s)"
  have u: "struct_unpack_H (slice_to (slice_from (buf s) 4) 2) = Inr (int ?L)"
    by (simp add: slice_4_6 [OF h] declared_length_def)
  have c: "take_chunk s (int ?L + 8) = (take (?L + 8) (buf s), s\<lparr>buf := drop (?L + 8) (buf s)\<rparr>)"
    using take_chunk_nat [of s "?L + 8"] by (simp add: add.commute)
  have "(int ?L + 8 \<le> int (length (buf s))) = (?L + 8 \<le> length (buf s))" by linarith
  with h u c show ?thesis
    by (simp add: take_ubx_def Let_def)
qed

section \<open>One detection step\<close>

lemma next_msg_nmea:
  "find_bytes (buf s) [0x24] = 0 \<Longrightarrow> next_msg parse s = take_nmea parse s"
  by (simp add: next_msg_def)

lemma next_msg_ubx:
  "find_bytes (buf s) [0x24] \<noteq> 0 \<Longrightarrow> find_bytes (buf s) [0xB5, 0x62] = 0 \<Longrightarrow>
   next_msg parse s = take_ubx s"
  by (simp add: next_msg_def)

lemma next_msg_none:
  "find_bytes (buf s) [0x24] = -1 \<Longrightarrow> find_bytes (buf s) [0xB5, 0x62] = -1 \<Longrightarrow>
   next_msg parse s = (Inr PyNone, s)"
  by (simp add: next_msg_def)

lemma next_msg_skip_both:
  "find_bytes (buf s) [0x24] = int n \<Longrightarrow> find_bytes (buf s) [0xB5, 0x62] = int u \<Longrightarrow>
   0 < n \<Longrightarrow> 0 < u \<Longrightarrow>
   next_msg parse s = (Inr (Bytes (take (min n u) (buf s))), s\<lparr>buf := drop (min n u) (buf s)\<rparr>)"
proof -
  assume h: "find_bytes (buf s) [0x24] = int n" "find_bytes (buf s) [0xB5, 0x62] = int u"
    "0 < n" "0 < u"
  have "min (int n) (int u) = int (min n u)" by simp
  with h show ?thesis
    by (simp add: next_msg_def Let_def take_chunk_nat del: of_nat_min)
qed

lemma next_msg_skip_nmea:
  "find_bytes (buf s) [0x24] = int n \<Longrightarrow> find_bytes (buf s) [0xB5, 0x62] = -1 \<Longrightarrow> 0 < n \<Longrightarrow>
   next_msg parse s = (Inr (Bytes (take n (buf s))), s\<lparr>buf := drop n (buf s)\<rparr>)"
  by (simp add: next_msg_def Let_def take_chunk_nat)

lemma next_msg_skip_ubx:
  "find_bytes (buf s) [0x24] = -1 \<Longrightarrow> find_bytes (buf s) [0xB5, 0x62] = int u \<Longrightarrow> 0 < u \<Longrightarrow>
   next_msg parse s = (Inr (Bytes (take u (buf s))), s\<lparr>buf := drop u (buf s)\<rparr>)"
  by (simp add: next_msg_def Let_def take_chunk_nat)

lemma step_ok_none: "step_ok s (Inr PyNone, s) []"
  by (simp add: step_ok_def)

lemma step_ok_bytes:
  "0 < k \<Longrightarrow> k \<le> length (buf s) \<Longrightarrow>
   step_ok s (Inr (Bytes (take k (buf s))), s\<lparr>buf := drop k (buf s)\<rparr>) (take k (buf s))"
  by (auto simp: step_ok_def)

lemma take_nmea_step: "\<exists>c. step_ok s (take_nmea parse s) c"
proof (rule find_bytes_cases [of "buf s" "[0x0D, 0x0A]"])
  assume "find_bytes (buf s) [0x0D, 0x0A] = -1"
  then show ?thesis using step_ok_none [of s] by (auto simp: take_nmea_absent)
next
  fix k assume h: "find_bytes (buf s) [0x0D, 0x0A] = int k"
  from find_bytes_bound [OF h] have "k + 2 \<le> length (buf s)" by simp
  then have "step_ok s (take_nmea parse s) (take (k + 2) (buf s))"
    by (auto simp: take_nmea_present [OF h] step_ok_def split: sum.splits)
  then show ?thesis ..
qed

lemma take_ubx_step: "\<exists>c. step_ok s (take_ubx s :: (error + 'n pyval) \<times> UbxNmeaParser) c"
proof (cases "length (buf s) < 6")
  case True
  then show ?thesis using step_ok_none [of s] by (auto simp: take_ubx_short)
next
  case False
  then have h: "6 \<le> length (buf s)" by simp
  show ?thesis
  proof (cases "declared_length (buf s) + 8 \<le> length (buf s)")
    case True
    then show ?thesis
      using step_ok_bytes [of "declared_length (buf s) + 8" s]
      by (auto simp: take_ubx_long [OF h])
  next
    case False
    then show ?thesis using step_ok_none [of s] by (auto simp: take_ubx_long [OF h])
  qed
qed

lemma next_msg_step: "\<exists>c. step_ok s (next_msg parse s) c"
proof (rule find_bytes_cases [of "buf s" "[0x24]"]; rule find_bytes_cases [of "buf s" "[0xB5, 0x62]"])
  assume "find_bytes (buf s) [0x24] = -1" "find_bytes (buf s) [0xB5, 0x62] = -1"
  then show ?thesis using step_ok_none [of s] by (auto simp: next_msg_none)
next
  fix u assume h: "find_bytes (buf s) [0x24] = -1" "find_bytes (buf s) [0xB5, 0x62] = int u"
  show ?thesis
  proof (cases "u = 0")
    case True
    with h show ?thesis using take_ubx_step [of s] by (simp add: next_msg_ubx)
  next
    case False
    moreover from find_bytes_bound [OF h(2)] have "u \<le> length (buf s)" by simp
    ultimately show ?thesis
      using step_ok_bytes [of u s] h by (auto simp: next_msg_skip_ubx)
  qed
next
  fix n assume h: "find_bytes (buf s) [0x24] = int n" "find_bytes (buf s) [0xB5, 0x62] = -1"
  show ?thesis
  proof (cases "n = 0")
    case True
    with h show ?thesis using take_nmea_step [of s parse] by (simp add: next_msg_nmea)
  next
    case False
    moreover from find_bytes_bound [OF h(1)] have "n \<le> length (buf s)" by simp
    ultimately show ?thesis
      using step_ok_bytes [of n s] h by (auto simp: next_msg_skip_nmea)
  qed
next
  fix n u assume h: "find_bytes (buf s) [0x24] = int n" "find_bytes (buf s) [0xB5, 0x62] = int u"
  show ?thesis
  proof (cases "n = 0")
    case True
    with h show ?thesis using take_nmea_step [of s parse] by (simp add: next_msg_nmea)
  next
    case n0: False
    show ?thesis
    proof (cases "u = 0")
      case True
      with h n0 show ?thesis using take_ubx_step [of s] by (simp add: next_msg_ubx)
    next
      case False
      from find_bytes_bound [OF h(1)] have "min n u \<le> length (buf s)" by simp
      moreover have "0 < min n u" using n0 False by simp
      ultimately show ?thesis
        using step_ok_bytes [of "min n u" s] h n0 False by (auto simp: next_msg_skip_both)
    qed
  qed
qed

lemma next_msg_shrinks:
  "next_msg parse s = (r, s') \<Longrightarrow> r \<noteq> Inr PyNone \<Longrightarrow> length (buf s') < length (buf s)"
proof -
  assume h: "next_msg parse s = (r, s')" "r \<noteq> Inr PyNone"
  from next_msg_step [of s parse] obtain c where "step_ok s (next_msg parse s) c" ..
  with h have "buf s = c @ buf s'" "c \<noteq> []" by (auto simp: step_ok_def)
  then show ?thesis by (metis length_append length_greater_0_conv less_add_same_cancel2 add.commute)
qed


termination get_msgs
proof (relation "measure (\<lambda>(parse, s). length (buf s))")
  show "wf (measure (\<lambda>(parse :: bytes \<Rightarrow> error + 'n, s). length (buf s)))" by simp
next
  fix parse :: "bytes \<Rightarrow> error + 'n" and s x y b
  assume "(x, y) = next_msg parse s" "x = Inr b" "b \<noteq> PyNone"
  then have "next_msg parse s = (x, y)" "x \<noteq> Inr PyNone" by auto
  from next_msg_shrinks [OF this]
  show "((parse, y), (parse, s)) \<in> measure (\<lambda>(parse, s). length (buf s))" by simp
qed

section \<open>Claims on the codec and on one detection step\<close>

lemma struct_pack_H_le: "n \<le> 65535 \<Longrightarrow> struct_pack_H (int n) = Inr (le_uint16 n)"
proof -
  assume h: "n \<le> 65535"
  have m: "int n mod 256 = int (n mod 256)" by (simp add: zmod_int)
  have d: "int n div 256 = int (n div 256)" by (simp add: zdiv_int)
  have "(word_of_int (int n mod 256) :: byte) = word_of_nat (n mod 256)"
    by (simp only: m of_int_of_nat_eq)
  moreover have "(word_of_int (int n div 256) :: byte) = word_of_nat (n div 256)"
    by (simp only: d of_int_of_nat_eq)
  ultimately show ?thesis using h
    by (simp add: struct_pack_H_def le_uint16_def)
qed

lemma ubx_checksum_length: "\<exists>ck. ubx_checksum msg = Inr ck \<and> length ck = 2"
proof -
  have "0 \<le> fst (spec_checksum (0, 0) (map uint msg)) \<and>
        fst (spec_checksum (0, 0) (map uint msg)) \<le> 255 \<and>
        0 \<le> snd (spec_checksum (0, 0) (map uint msg)) \<and>
        snd (spec_checksum (0, 0) (map uint msg)) \<le> 255"
    by (rule spec_checksum_range) simp_all
  then show ?thesis
    by (simp add: ubx_checksum_def iter_ints_def Let_def foldl_checksum_step struct_pack_BB_def)
qed

text \<open>
  C3. For a message whose \<open>msg_id\<close> has 2 bytes and whose payload has at most 65535
  bytes, \<open>serialise\<close> returns (without raising) the bytes 0xB5 0x62, then the body
  (\<open>msg_id\<close>, the payload length as a little-endian 16-bit value, the payload), then
  the checksum of the body, then 0x10 0x13; the result has payload length + 10 bytes.
\<close>

theorem serialise_layout:
  "length (msg_id m) = 2 \<Longrightarrow> length (payload m) \<le> 65535 \<Longrightarrow>
   \<exists>ck. ubx_checksum (msg_id m @ le_uint16 (length (payload m)) @ payload m) = Inr ck \<and>
        serialise m =
          Inr ([0xB5, 0x62] @ (msg_id m @ le_uint16 (length (payload m)) @ payload m) @ ck @
               [0x10, 0x13]) \<and>
        length ([0xB5, 0x62] @ (msg_id m @ le_uint16 (length (payload m)) @ payload m) @ ck @
                [0x10, 0x13 :: byte]) = length (payload m) + 10"
proof -
  assume h: "length (msg_id m) = 2" "length (payload m) \<le> 65535"
  let ?body = "msg_id m @ le_uint16 (length (payload m)) @ payload m"
  from ubx_checksum_length [of ?body] obtain ck where
    ck: "ubx_checksum ?body = Inr ck" "length ck = 2" by blast
  have "serialise m = Inr ([0xB5, 0x62] @ ?body @ ck @ [0x10, 0x13])"
    using ck(1) by (simp add: serialise_def struct_pack_H_le [OF h(2)] Let_def)
  moreover have "length ([0xB5, 0x62] @ ?body @ ck @ [0x10, 0x13 :: byte]) = length (payload m) + 10"
    using h(1) ck(2) by (simp add: le_uint16_def)
  ultimately show ?thesis using ck(1) by blast
qed

text \<open>The example of the specification: \<open>msg_id\<close> 06 01, payload AB CD.\<close>

theorem serialise_layout_witness:
  "length (msg_id \<lparr>msg_id = [0x06, 0x01], payload = [0xAB, 0xCD]\<rparr>) = 2 \<and>
   length (payload \<lparr>msg_id = [0x06, 0x01], payload = [0xAB, 0xCD]\<rparr>) \<le> 65535 \<and>
   serialise \<lparr>msg_id = [0x06, 0x01], payload = [0xAB, 0xCD]\<rparr> =
     Inr [0xB5, 0x62, 0x06, 0x01, 0x02, 0x00, 0xAB, 0xCD, 0x81, 0x54, 0x10, 0x13]"
proof -
  let ?m = "\<lparr>msg_id = [0x06, 0x01], payload = [0xAB, 0xCD :: byte]\<rparr>"
  have h1: "length (msg_id ?m) = 2" by simp
  have h2: "length (payload ?m) \<le> 65535" by simp
  have ck: "ubx_checksum [0x06, 0x01, 0x02, 0x00, 0xAB, 0xCD] = Inr [0x81, 0x54]"
    by (simp add: ubx_checksum_def iter_ints_def checksum_step_def Let_def struct_pack_BB_def
        and_255_mod)
  from serialise_layout [OF h1 h2] ck h1 h2 show ?thesis
    by (simp add: le_uint16_def)
qed

declare get_msgs.simps [simp del]

lemma get_msgs_none:
  "next_msg parse s = (Inr PyNone, s') \<Longrightarrow> get_msgs parse s = ([], None, s')"
  by (subst get_msgs.simps) simp

lemma get_msgs_raise:
  "next_msg parse s = (Inl e, s') \<Longrightarrow> get_msgs parse s = ([], Some e, s')"
  by (subst get_msgs.simps) simp

lemma get_msgs_yield:
  "next_msg parse s = (Inr v, s') \<Longrightarrow> v \<noteq> PyNone \<Longrightarrow>
   get_msgs parse s = (v # fst (get_msgs parse s'), snd (get_msgs parse s'))"
  by (subst get_msgs.simps) (simp add: case_prod_beta)

lemma marker_at_0:
  "take 2 b = [0xB5, 0x62] \<Longrightarrow> find_bytes b [0x24] \<noteq> 0 \<and> find_bytes b [0xB5, 0x62] = 0"
proof -
  assume h: "take 2 b = [0xB5, 0x62 :: byte]"
  then have l: "2 \<le> length b" by (metis length_take min.cobounded1 length_Cons list.size(3) Suc_1 One_nat_def numeral_2_eq_2)
  from h have "hd b = 0xB5" by (metis hd_take list.sel(1) zero_less_numeral)
  with l have "\<not> occurs_at [0x24] b 0"
    by (cases b) (auto simp: occurs_at_def)
  moreover from h l have "occurs_at [0xB5, 0x62] b 0" by (simp add: occurs_at_def numeral_2_eq_2)
  ultimately show ?thesis by (simp add: find_bytes_zero)
qed

lemma next_msg_marker:
  "take 2 (buf s) = [0xB5, 0x62] \<Longrightarrow>
   next_msg parse s =
     (if length (buf s) < 6 then (Inr PyNone, s)
      else if declared_length (buf s) + 8 \<le> length (buf s)
      then (Inr (Bytes (take (declared_length (buf s) + 8) (buf s))),
            s\<lparr>buf := drop (declared_length (buf s) + 8) (buf s)\<rparr>)
      else (Inr PyNone, s))"
proof -
  assume h: "take 2 (buf s) = [0xB5, 0x62]"
  from marker_at_0 [OF h] have "next_msg parse s = take_ubx s" by (simp add: next_msg_ubx)
  then show ?thesis by (simp add: take_ubx_short take_ubx_long)
qed

lemma next_msg_empty: "buf s = [] \<Longrightarrow> next_msg parse s = (Inr PyNone, s)"
  by (simp add: next_msg_def find_bytes_def)

text \<open>
  C4. With the UBX marker at offset 0, one detection step returns \<open>None\<close> and leaves
  the parser as it is when fewer than 6 bytes are buffered; otherwise it reads the
  declared length from bytes 4 and 5, and removes and returns exactly that length + 8
  bytes when that many are buffered, and returns \<open>None\<close> when they are not. In
  particular, 17 buffered bytes of a frame that declares 10 payload bytes yield nothing,
  and after one more byte is fed the 18 bytes are yielded as one frame and the buffer
  is empty.
\<close>

theorem ubx_extraction:
  "take 2 (buf s) = [0xB5, 0x62] \<Longrightarrow>
   next_msg parse s =
     (if length (buf s) < 6 then (Inr PyNone, s)
      else if declared_length (buf s) + 8 \<le> length (buf s)
      then (Inr (Bytes (take (declared_length (buf s) + 8) (buf s))),
            s\<lparr>buf := drop (declared_length (buf s) + 8) (buf s)\<rparr>)
      else (Inr PyNone, s)) \<and>
   (length (buf s) = 17 \<and> declared_length (buf s) = 10 \<longrightarrow>
      get_msgs parse s = ([], None, s) \<and>
      get_msgs parse (feed s [x]) = ([Bytes (buf s @ [x])], None, s\<lparr>buf := []\<rparr>) \<and>
      length (buf s @ [x]) = 18)"
proof -
  assume h: "take 2 (buf s) = [0xB5, 0x62]"
  have short: "get_msgs parse s = ([], None, s)"
    and full: "get_msgs parse (feed s [x]) = ([Bytes (buf s @ [x])], None, s\<lparr>buf := []\<rparr>)"
    if l: "length (buf s) = 17" and d: "declared_length (buf s) = 10"
  proof -
    from l d have "next_msg parse s = (Inr PyNone, s)" by (simp add: next_msg_marker [OF h])
    then show "get_msgs parse s = ([], None, s)" by (rule get_msgs_none)
    let ?t = "feed s [x]"
    have bt: "buf ?t = buf s @ [x]" by (simp add: feed_def)
    have "take 2 (buf ?t) = [0xB5, 0x62]" using h l by (simp add: bt)
    moreover have "declared_length (buf ?t) = 10"
      using d l by (simp add: bt declared_length_def nth_append)
    moreover have "length (buf ?t) = 18" using l by (simp add: bt)
    ultimately have "next_msg parse ?t = (Inr (Bytes (buf ?t)), ?t\<lparr>buf := []\<rparr>)"
      using next_msg_marker [of ?t parse] by simp
    moreover have "next_msg parse (?t\<lparr>buf := []\<rparr>) = (Inr PyNone, ?t\<lparr>buf := []\<rparr>)"
      by (rule next_msg_empty) simp
    ultimately have "get_msgs parse ?t = ([Bytes (buf ?t)], None, ?t\<lparr>buf := []\<rparr>)"
      by (simp add: get_msgs_yield get_msgs_none)
    then show "get_msgs parse (feed s [x]) = ([Bytes (buf s @ [x])], None, s\<lparr>buf := []\<rparr>)"
      by (simp add: bt feed_def)
  qed
  from next_msg_marker [OF h, of parse] short full show ?thesis by simp
qed

text \<open>
  A frame declaring 10 payload bytes, one byte short and then complete; a header of
  3 bytes; and a complete frame followed by one more byte.
\<close>

theorem ubx_extraction_witness:
  "take 2 (buf \<lparr>buf = [0xB5, 0x62, 0x01, 0x02, 0x0A, 0x00, 1, 2, 3, 4, 5, 6, 7, 8, 9, 10, 0x77]\<rparr>)
     = [0xB5, 0x62] \<and>
   next_msg (\<lambda>d. Inr d)
     \<lparr>buf = [0xB5, 0x62, 0x01, 0x02, 0x0A, 0x00, 1, 2, 3, 4, 5, 6, 7, 8, 9, 10, 0x77]\<rparr>
     = (Inr PyNone,
        \<lparr>buf = [0xB5, 0x62, 0x01, 0x02, 0x0A, 0x00, 1, 2, 3, 4, 5, 6, 7, 8, 9, 10, 0x77]\<rparr>) \<and>
   get_msgs (\<lambda>d. Inr d)
     \<lparr>buf = [0xB5, 0x62, 0x01, 0x02, 0x0A, 0x00, 1, 2, 3, 4, 5, 6, 7, 8, 9, 10, 0x77]\<rparr>
     = ([], None,
        \<lparr>buf = [0xB5, 0x62, 0x01, 0x02, 0x0A, 0x00, 1, 2, 3, 4, 5, 6, 7, 8, 9, 10, 0x77]\<rparr>) \<and>
   get_msgs (\<lambda>d. Inr d)
     (feed \<lparr>buf = [0xB5, 0x62, 0x01, 0x02, 0x0A, 0x00, 1, 2, 3, 4, 5, 6, 7, 8, 9, 10, 0x77]\<rparr>
        [0x88])
     = ([Bytes [0xB5, 0x62, 0x01, 0x02, 0x0A, 0x00, 1, 2, 3, 4, 5, 6, 7, 8, 9, 10, 0x77, 0x88]],
        None, \<lparr>buf = []\<rparr>) \<and>
   next_msg (\<lambda>d. Inr d) \<lparr>buf = [0xB5, 0x62, 0x01]\<rparr> = (Inr PyNone, \<lparr>buf = [0xB5, 0x62, 0x01]\<rparr>) \<and>
   next_msg (\<lambda>d. Inr d) \<lparr>buf = [0xB5, 0x62, 0x01, 0x02, 0x01, 0x00, 0x24, 0x0D, 0x0A, 0x41]\<rparr>
     = (Inr (Bytes [0xB5, 0x62, 0x01, 0x02, 0x01, 0x00, 0x24, 0x0D, 0x0A]), \<lparr>buf = [0x41]\<rparr>)"
proof -
  let ?p = "(\<lambda>d. Inr d) :: bytes \<Rightarrow> error + bytes"
  let ?s = "\<lparr>buf = [0xB5, 0x62, 0x01, 0x02, 0x0A, 0x00, 1, 2, 3, 4, 5, 6, 7, 8, 9, 10, 0x77 :: byte]\<rparr>"
  let ?t = "\<lparr>buf = [0xB5, 0x62, 0x01 :: byte]\<rparr>"
  let ?u = "\<lparr>buf = [0xB5, 0x62, 0x01, 0x02, 0x01, 0x00, 0x24, 0x0D, 0x0A, 0x41 :: byte]\<rparr>"
  have hs: "take 2 (buf ?s) = [0xB5, 0x62]" by (simp add: numeral_2_eq_2)
  have ht: "take 2 (buf ?t) = [0xB5, 0x62]" by (simp add: numeral_2_eq_2)
  have hu: "take 2 (buf ?u) = [0xB5, 0x62]" by (simp add: numeral_2_eq_2)
  have ds: "declared_length (buf ?s) = 10" by (simp add: declared_length_def)
  have du: "declared_length (buf ?u) = 1" by (simp add: declared_length_def)
  have tu: "take 9 (buf ?u) = [0xB5, 0x62, 0x01, 0x02, 0x01, 0x00, 0x24, 0x0D, 0x0A]"
    "drop 9 (buf ?u) = [0x41]" by (simp_all add: eval_nat_numeral)
  from ubx_extraction [OF hs, of ?p "0x88"] ds
  have "next_msg ?p ?s = (Inr PyNone, ?s) \<and> get_msgs ?p ?s = ([], None, ?s) \<and>
        get_msgs ?p (feed ?s [0x88]) = ([Bytes (buf ?s @ [0x88])], None, \<lparr>buf = []\<rparr>)"
    by simp
  moreover from ubx_extraction [OF ht, of ?p 0]
  have "next_msg ?p ?t = (Inr PyNone, ?t)" by simp
  moreover from ubx_extraction [OF hu, of ?p 0] du tu
  have "next_msg ?p ?u = (Inr (Bytes [0xB5, 0x62, 0x01, 0x02, 0x01, 0x00, 0x24, 0x0D, 0x0A]), \<lparr>buf = [0x41]\<rparr>)"
    by simp
  ultimately show ?thesis using hs by simp
qed

lemma step_ok_unchanged: "step_ok s rs c \<Longrightarrow> fst rs = Inr PyNone \<Longrightarrow> snd rs = s"
proof -
  assume h: "step_ok s rs c" "fst rs = Inr PyNone"
  then have "buf (snd rs) = buf s" "snd rs = s\<lparr>buf := buf (snd rs)\<rparr>"
    by (auto simp: step_ok_def)
  then show ?thesis by simp
qed

text \<open>
  C5. A call of \<open>_next_msg\<close>, \<open>_take_nmea\<close> or \<open>_take_ubx\<close> that returns
  \<open>None\<close> leaves the parser exactly as it was; and \<open>_next_msg\<close> returns \<open>None\<close>
  when neither marker occurs in the buffer, when \<open>$\<close> is at offset 0 and no CRLF is
  buffered, and when the UBX marker is at offset 0 and fewer than 6 bytes, or fewer than
  the declared length + 8 bytes, are buffered.
\<close>

theorem not_ready_keeps_buffer:
  "(fst (next_msg parse s) = Inr PyNone \<longrightarrow> snd (next_msg parse s) = s) \<and>
   (fst (take_nmea parse s) = Inr PyNone \<longrightarrow> snd (take_nmea parse s) = s) \<and>
   (fst (take_ubx s :: (error + 'n pyval) \<times> UbxNmeaParser) = Inr PyNone \<longrightarrow>
      snd (take_ubx s :: (error + 'n pyval) \<times> UbxNmeaParser) = s) \<and>
   (find_bytes (buf s) [0x24] = -1 \<and> find_bytes (buf s) [0xB5, 0x62] = -1 \<longrightarrow>
      next_msg parse s = (Inr PyNone, s)) \<and>
   (find_bytes (buf s) [0x24] = 0 \<and> find_bytes (buf s) [0x0D, 0x0A] = -1 \<longrightarrow>
      next_msg parse s = (Inr PyNone, s)) \<and>
   (find_bytes (buf s) [0xB5, 0x62] = 0 \<and>
    (length (buf s) < 6 \<or> length (buf s) < declared_length (buf s) + 8) \<longrightarrow>
      next_msg parse s = (Inr PyNone, s))"
proof (intro conjI impI)
  assume "fst (next_msg parse s) = Inr PyNone"
  with next_msg_step [of s parse] show "snd (next_msg parse s) = s"
    by (blast dest: step_ok_unchanged)
next
  assume "fst (take_nmea parse s) = Inr PyNone"
  with take_nmea_step [of s parse] show "snd (take_nmea parse s) = s"
    by (blast dest: step_ok_unchanged)
next
  assume "fst (take_ubx s :: (error + 'n pyval) \<times> UbxNmeaParser) = Inr PyNone"
  with take_ubx_step [of s, where ?'n = 'n]
  show "snd (take_ubx s :: (error + 'n pyval) \<times> UbxNmeaParser) = s"
    by (blast dest: step_ok_unchanged)
next
  assume "find_bytes (buf s) [0x24] = -1 \<and> find_bytes (buf s) [0xB5, 0x62] = -1"
  then show "next_msg parse s = (Inr PyNone, s)" by (simp add: next_msg_none)
next
  assume "find_bytes (buf s) [0x24] = 0 \<and> find_bytes (buf s) [0x0D, 0x0A] = -1"
  then show "next_msg parse s = (Inr PyNone, s)" by (simp add: next_msg_nmea take_nmea_absent)
next
  assume h: "find_bytes (buf s) [0xB5, 0x62] = 0 \<and>
    (length (buf s) < 6 \<or> length (buf s) < declared_length (buf s) + 8)"
  then have "take 2 (buf s) = [0xB5, 0x62]" by (simp add: find_bytes_zero occurs_at_def numeral_2_eq_2)
  from next_msg_marker [OF this, of parse] h show "next_msg parse s = (Inr PyNone, s)" by auto
qed

text \<open>One buffer for each of the three causes.\<close>

theorem not_ready_keeps_buffer_witness:
  "find_bytes (buf \<lparr>buf = [0x41, 0x42]\<rparr>) [0x24] = -1 \<and>
   find_bytes (buf \<lparr>buf = [0x41, 0x42]\<rparr>) [0xB5, 0x62] = -1 \<and>
   next_msg (\<lambda>d. Inr d) \<lparr>buf = [0x41, 0x42]\<rparr> = (Inr PyNone, \<lparr>buf = [0x41, 0x42]\<rparr>) \<and>
   find_bytes (buf \<lparr>buf = [0x24, 0x47, 0x0D]\<rparr>) [0x24] = 0 \<and>
   find_bytes (buf \<lparr>buf = [0x24, 0x47, 0x0D]\<rparr>) [0x0D, 0x0A] = -1 \<and>
   next_msg (\<lambda>d. Inr d) \<lparr>buf = [0x24, 0x47, 0x0D]\<rparr> = (Inr PyNone, \<lparr>buf = [0x24, 0x47, 0x0D]\<rparr>) \<and>
   find_bytes (buf \<lparr>buf = [0xB5, 0x62, 0x01]\<rparr>) [0xB5, 0x62] = 0 \<and>
   length (buf \<lparr>buf = [0xB5, 0x62, 0x01 :: byte]\<rparr>) < 6 \<and>
   next_msg (\<lambda>d. Inr d) \<lparr>buf = [0xB5, 0x62, 0x01]\<rparr> = (Inr PyNone, \<lparr>buf = [0xB5, 0x62, 0x01]\<rparr>)"
proof -
  let ?p = "(\<lambda>d. Inr d) :: bytes \<Rightarrow> error + bytes"
  let ?a = "\<lparr>buf = [0x41, 0x42 :: byte]\<rparr>"
  let ?b = "\<lparr>buf = [0x24, 0x47, 0x0D :: byte]\<rparr>"
  let ?c = "\<lparr>buf = [0xB5, 0x62, 0x01 :: byte]\<rparr>"
  have a: "find_bytes (buf ?a) [0x24] = -1" "find_bytes (buf ?a) [0xB5, 0x62] = -1"
    by (simp_all add: find_bytes_def)
  have b: "find_bytes (buf ?b) [0x24] = 0" "find_bytes (buf ?b) [0x0D, 0x0A] = -1"
    by (simp_all add: find_bytes_def)
  have c: "find_bytes (buf ?c) [0xB5, 0x62] = 0" "length (buf ?c) < 6"
    by (simp_all add: find_bytes_def)
  from not_ready_keeps_buffer [of ?p ?a] a have "next_msg ?p ?a = (Inr PyNone, ?a)" by blast
  moreover from not_ready_keeps_buffer [of ?p ?b] b have "next_msg ?p ?b = (Inr PyNone, ?b)" by blast
  moreover from not_ready_keeps_buffer [of ?p ?c] c have "next_msg ?p ?c = (Inr PyNone, ?c)" by blast
  ultimately show ?thesis using a b c by simp
qed

lemma find_bytes_pos:
  "0 < find_bytes b sub \<Longrightarrow> \<exists>k. find_bytes b sub = int k \<and> 0 < k \<and> k + length sub \<le> length b"
proof -
  assume h: "0 < find_bytes b sub"
  then have "find_bytes b sub \<noteq> -1" by simp
  from find_bytes_some [OF this] obtain k where k: "find_bytes b sub = int k" by blast
  with h find_bytes_bound [OF k] show ?thesis by auto
qed

text \<open>
  C6. When both markers occur at positive offsets, one detection step removes exactly
  the smaller of the two offsets in bytes from the front of the buffer (and returns that
  span uninterpreted); when only one of the markers occurs, at a positive offset, it
  removes exactly that many bytes.
\<close>

theorem noise_skip_length:
  "(0 < find_bytes (buf s) [0x24] \<and> 0 < find_bytes (buf s) [0xB5, 0x62] \<longrightarrow>
      next_msg parse s =
        (Inr (Bytes (take (nat (min (find_bytes (buf s) [0x24]) (find_bytes (buf s) [0xB5, 0x62])))
                       (buf s))),
         s\<lparr>buf := drop (nat (min (find_bytes (buf s) [0x24]) (find_bytes (buf s) [0xB5, 0x62])))
                     (buf s)\<rparr>) \<and>
      nat (min (find_bytes (buf s) [0x24]) (find_bytes (buf s) [0xB5, 0x62])) \<le> length (buf s)) \<and>
   (0 < find_bytes (buf s) [0x24] \<and> find_bytes (buf s) [0xB5, 0x62] = -1 \<longrightarrow>
      next_msg parse s =
        (Inr (Bytes (take (nat (find_bytes (buf s) [0x24])) (buf s))),
         s\<lparr>buf := drop (nat (find_bytes (buf s) [0x24])) (buf s)\<rparr>) \<and>
      nat (find_bytes (buf s) [0x24]) \<le> length (buf s)) \<and>
   (find_bytes (buf s) [0x24] = -1 \<and> 0 < find_bytes (buf s) [0xB5, 0x62] \<longrightarrow>
      next_msg parse s =
        (Inr (Bytes (take (nat (find_bytes (buf s) [0xB5, 0x62])) (buf s))),
         s\<lparr>buf := drop (nat (find_bytes (buf s) [0xB5, 0x62])) (buf s)\<rparr>) \<and>
      nat (find_bytes (buf s) [0xB5, 0x62]) \<le> length (buf s))"
proof (intro conjI impI)
  assume h: "0 < find_bytes (buf s) [0x24] \<and> 0 < find_bytes (buf s) [0xB5, 0x62]"
  from h find_bytes_pos [of "buf s" "[0x24]"] obtain n where
    n: "find_bytes (buf s) [0x24] = int n" "0 < n" "n + 1 \<le> length (buf s)" by auto
  from h find_bytes_pos [of "buf s" "[0xB5, 0x62]"] obtain u where
    u: "find_bytes (buf s) [0xB5, 0x62] = int u" "0 < u" "u + 2 \<le> length (buf s)" by auto
  have m: "nat (min (int n) (int u)) = min n u" by simp
  show "next_msg parse s =
        (Inr (Bytes (take (nat (min (find_bytes (buf s) [0x24]) (find_bytes (buf s) [0xB5, 0x62])))
                       (buf s))),
         s\<lparr>buf := drop (nat (min (find_bytes (buf s) [0x24]) (find_bytes (buf s) [0xB5, 0x62])))
                     (buf s)\<rparr>)"
    by (simp only: n(1) u(1) m next_msg_skip_both [OF n(1) u(1) n(2) u(2)])
  show "nat (min (find_bytes (buf s) [0x24]) (find_bytes (buf s) [0xB5, 0x62])) \<le> length (buf s)"
    using n(3) by (simp add: n(1) u(1))
next
  assume h: "0 < find_bytes (buf s) [0x24] \<and> find_bytes (buf s) [0xB5, 0x62] = -1"
  from h find_bytes_pos [of "buf s" "[0x24]"] obtain n where
    n: "find_bytes (buf s) [0x24] = int n" "0 < n" "n + 1 \<le> length (buf s)" by auto
  from h have u: "find_bytes (buf s) [0xB5, 0x62] = -1" by simp
  show "next_msg parse s =
        (Inr (Bytes (take (nat (find_bytes (buf s) [0x24])) (buf s))),
         s\<lparr>buf := drop (nat (find_bytes (buf s) [0x24])) (buf s)\<rparr>)"
    by (simp add: n(1) next_msg_skip_nmea [OF n(1) u n(2)])
  show "nat (find_bytes (buf s) [0x24]) \<le> length (buf s)" using n by simp
next
  assume h: "find_bytes (buf s) [0x24] = -1 \<and> 0 < find_bytes (buf s) [0xB5, 0x62]"
  from h find_bytes_pos [of "buf s" "[0xB5, 0x62]"] obtain u where
    u: "find_bytes (buf s) [0xB5, 0x62] = int u" "0 < u" "u + 2 \<le> length (buf s)" by auto
  from h have n: "find_bytes (buf s) [0x24] = -1" by simp
  show "next_msg parse s =
        (Inr (Bytes (take (nat (find_bytes (buf s) [0xB5, 0x62])) (buf s))),
         s\<lparr>buf := drop (nat (find_bytes (buf s) [0xB5, 0x62])) (buf s)\<rparr>)"
    by (simp add: u(1) next_msg_skip_ubx [OF n u(1) u(2)])
  show "nat (find_bytes (buf s) [0xB5, 0x62]) \<le> length (buf s)" using u by simp
qed

text \<open>Noise before both markers, before \<open>$\<close> only, and before the UBX marker only.\<close>

theorem noise_skip_length_witness:
  "find_bytes (buf \<lparr>buf = [0x41, 0x42, 0xB5, 0x62, 0x24]\<rparr>) [0x24] = 4 \<and>
   find_bytes (buf \<lparr>buf = [0x41, 0x42, 0xB5, 0x62, 0x24]\<rparr>) [0xB5, 0x62] = 2 \<and>
   next_msg (\<lambda>d. Inr d) \<lparr>buf = [0x41, 0x42, 0xB5, 0x62, 0x24]\<rparr> =
     (Inr (Bytes [0x41, 0x42]), \<lparr>buf = [0xB5, 0x62, 0x24]\<rparr>) \<and>
   find_bytes (buf \<lparr>buf = [0x41, 0x24]\<rparr>) [0x24] = 1 \<and>
   find_bytes (buf \<lparr>buf = [0x41, 0x24]\<rparr>) [0xB5, 0x62] = -1 \<and>
   next_msg (\<lambda>d. Inr d) \<lparr>buf = [0x41, 0x24]\<rparr> = (Inr (Bytes [0x41]), \<lparr>buf = [0x24]\<rparr>) \<and>
   find_bytes (buf \<lparr>buf = [0x41, 0x42, 0x43, 0xB5, 0x62]\<rparr>) [0x24] = -1 \<and>
   find_bytes (buf \<lparr>buf = [0x41, 0x42, 0x43, 0xB5, 0x62]\<rparr>) [0xB5, 0x62] = 3 \<and>
   next_msg (\<lambda>d. Inr d) \<lparr>buf = [0x41, 0x42, 0x43, 0xB5, 0x62]\<rparr> =
     (Inr (Bytes [0x41, 0x42, 0x43]), \<lparr>buf = [0xB5, 0x62]\<rparr>)"
proof -
  let ?p = "(\<lambda>d. Inr d) :: bytes \<Rightarrow> error + bytes"
  let ?a = "\<lparr>buf = [0x41, 0x42, 0xB5, 0x62, 0x24 :: byte]\<rparr>"
  let ?b = "\<lparr>buf = [0x41, 0x24 :: byte]\<rparr>"
  let ?c = "\<lparr>buf = [0x41, 0x42, 0x43, 0xB5, 0x62 :: byte]\<rparr>"
  have a: "find_bytes (buf ?a) [0x24] = 4" "find_bytes (buf ?a) [0xB5, 0x62] = 2"
    by (simp_all add: find_bytes_def)
  have b: "find_bytes (buf ?b) [0x24] = 1" "find_bytes (buf ?b) [0xB5, 0x62] = -1"
    by (simp_all add: find_bytes_def)
  have c: "find_bytes (buf ?c) [0x24] = -1" "find_bytes (buf ?c) [0xB5, 0x62] = 3"
    by (simp_all add: find_bytes_def)
  from noise_skip_length [of ?a ?p] a
  have "next_msg ?p ?a = (Inr (Bytes [0x41, 0x42]), \<lparr>buf = [0xB5, 0x62, 0x24]\<rparr>)"
    by (simp add: eval_nat_numeral)
  moreover from noise_skip_length [of ?b ?p] b
  have "next_msg ?p ?b = (Inr (Bytes [0x41]), \<lparr>buf = [0x24]\<rparr>)"
    by (simp add: eval_nat_numeral)
  moreover from noise_skip_length [of ?c ?p] c
  have "next_msg ?p ?c = (Inr (Bytes [0x41, 0x42, 0x43]), \<lparr>buf = [0xB5, 0x62]\<rparr>)"
    by (simp add: eval_nat_numeral)
  ultimately show ?thesis using a b c by simp
qed

section \<open>The sequence of \<open>get_msgs\<close>\<close>

lemma next_msg_le:
  "length (buf (snd (next_msg parse s))) \<le> length (buf s)"
proof -
  from next_msg_step [of s parse] obtain c where "step_ok s (next_msg parse s) c" ..
  then have "buf s = c @ buf (snd (next_msg parse s))" by (simp add: step_ok_def)
  then have "length (buf s) = length c + length (buf (snd (next_msg parse s)))"
    by (metis length_append)
  then show ?thesis by simp
qed

lemma get_msgs_count:
  "length (fst (get_msgs parse s)) + length (buf (snd (snd (get_msgs parse s)))) \<le> length (buf s)"
proof (induction parse s rule: get_msgs.induct)
  case (1 parse s)
  obtain r s' where rs: "next_msg parse s = (r, s')" by (cases "next_msg parse s")
  from next_msg_le [of parse s] rs have le: "length (buf s') \<le> length (buf s)" by simp
  show ?case
  proof (cases r)
    case (Inl e)
    with rs le show ?thesis by (simp add: get_msgs_raise)
  next
    case (Inr v)
    show ?thesis
    proof (cases "v = PyNone")
      case True
      with rs Inr le show ?thesis by (simp add: get_msgs_none)
    next
      case False
      from rs Inr False have lt: "length (buf s') < length (buf s)"
        by (intro next_msg_shrinks [of parse s r s']) auto
      from "1.IH" [of r s' v] rs Inr False
      have "length (fst (get_msgs parse s')) + length (buf (snd (snd (get_msgs parse s'))))
              \<le> length (buf s')" by simp
      with lt show ?thesis
        by (simp add: get_msgs_yield [of parse s v s'] rs Inr False)
    qed
  qed
qed

text \<open>
  C7. The sequence of \<open>get_msgs\<close> is finite. \<open>get_msgs\<close> is a total function (its
  termination is proved above); a call of \<open>_next_msg\<close> that returns something other
  than \<open>None\<close> leaves a strictly shorter buffer, no call leaves a longer one, and the
  number of values yielded plus the bytes left is at most the number of bytes buffered.
\<close>

theorem get_msgs_finite:
  "(fst (next_msg parse s) \<noteq> Inr PyNone \<longrightarrow>
      length (buf (snd (next_msg parse s))) < length (buf s)) \<and>
   length (buf (snd (next_msg parse s))) \<le> length (buf s) \<and>
   length (fst (get_msgs parse s)) + length (buf (snd (snd (get_msgs parse s)))) \<le> length (buf s)"
proof (intro conjI impI)
  assume "fst (next_msg parse s) \<noteq> Inr PyNone"
  then show "length (buf (snd (next_msg parse s))) < length (buf s)"
    by (intro next_msg_shrinks [of parse s "fst (next_msg parse s)"]) auto
next
  show "length (buf (snd (next_msg parse s))) \<le> length (buf s)" by (rule next_msg_le)
next
  show "length (fst (get_msgs parse s)) + length (buf (snd (snd (get_msgs parse s))))
          \<le> length (buf s)" by (rule get_msgs_count)
qed

lemma next_A_dollar:
  "next_msg parse \<lparr>buf = [0x41, 0x24]\<rparr> = (Inr (Bytes [0x41]), \<lparr>buf = [0x24]\<rparr>)"
  by (simp add: next_msg_def find_bytes_def take_chunk_def slice_to_def slice_from_def)

text \<open>One noise byte before a \<open>$\<close>: the step returns the noise byte and one byte is left.\<close>

theorem get_msgs_finite_witness:
  "fst (next_msg (\<lambda>d. Inr d) \<lparr>buf = [0x41, 0x24]\<rparr>) = Inr (Bytes [0x41]) \<and>
   length (buf (snd (next_msg (\<lambda>d. Inr d) \<lparr>buf = [0x41, 0x24]\<rparr>))) < 2 \<and>
   length (fst (get_msgs (\<lambda>d. Inr d) \<lparr>buf = [0x41, 0x24]\<rparr>)) +
     length (buf (snd (snd (get_msgs (\<lambda>d. Inr d) \<lparr>buf = [0x41, 0x24]\<rparr>)))) \<le> 2"
proof -
  let ?p = "(\<lambda>d. Inr d) :: bytes \<Rightarrow> error + bytes"
  have "fst (next_msg ?p \<lparr>buf = [0x41, 0x24]\<rparr>) = Inr (Bytes [0x41])"
    by (simp add: next_A_dollar)
  with get_msgs_finite [of ?p "\<lparr>buf = [0x41, 0x24]\<rparr>"] show ?thesis by simp
qed

lemma take_chunk_split: "fst (take_chunk s n) @ buf (snd (take_chunk s n)) = buf s"
  by (simp add: take_chunk_def slice_to_def slice_from_def)

lemma get_msgs_suffix: "\<exists>c. buf s = c @ buf (snd (snd (get_msgs parse s)))"
proof (induction parse s rule: get_msgs.induct)
  case (1 parse s)
  obtain r s' where rs: "next_msg parse s = (r, s')" by (cases "next_msg parse s")
  from next_msg_step [of s parse] rs obtain c where c: "buf s = c @ buf s'"
    by (auto simp: step_ok_def)
  show ?case
  proof (cases r)
    case (Inl e)
    with rs c show ?thesis by (auto simp: get_msgs_raise)
  next
    case (Inr v)
    show ?thesis
    proof (cases "v = PyNone")
      case True
      with rs Inr c show ?thesis by (auto simp: get_msgs_none)
    next
      case False
      from "1.IH" [of r s' v] rs Inr False
      obtain d where "buf s' = d @ buf (snd (snd (get_msgs parse s')))" by auto
      with c have "buf s = (c @ d) @ buf (snd (snd (get_msgs parse s')))" by simp
      moreover from rs Inr False
      have "snd (snd (get_msgs parse s)) = snd (snd (get_msgs parse s'))"
        by (simp add: get_msgs_yield [of parse s v s'])
      ultimately have "buf s = (c @ d) @ buf (snd (snd (get_msgs parse s)))" by simp
      then show ?thesis ..
    qed
  qed
qed

text \<open>
  C8. \<open>feed\<close> appends to the back of the buffer; \<open>_take_chunk\<close> splits the buffer
  into the chunk it returns and the rest it keeps; one detection step, and a whole run of
  \<open>get_msgs\<close>, leave a suffix of the buffer (the bytes returned by a step are the
  prefix removed); and after a step has yielded a value, the rest of the sequence is
  exactly what \<open>get_msgs\<close> yields on the parser holding the remaining suffix.
\<close>

theorem removed_bytes_never_revisited:
  "buf (feed s d) = buf s @ d \<and>
   fst (take_chunk s n) @ buf (snd (take_chunk s n)) = buf s \<and>
   (\<exists>c. buf s = c @ buf (snd (next_msg parse s)) \<and>
        (\<forall>v. fst (next_msg parse s) = Inr (Bytes v) \<longrightarrow> v = c)) \<and>
   (\<exists>c. buf s = c @ buf (snd (snd (get_msgs parse s)))) \<and>
   (\<forall>v s'. next_msg parse s = (Inr v, s') \<and> v \<noteq> PyNone \<longrightarrow>
      get_msgs parse s = (v # fst (get_msgs parse s'), snd (get_msgs parse s')))"
proof (intro conjI)
  show "buf (feed s d) = buf s @ d" by (simp add: feed_def)
  show "fst (take_chunk s n) @ buf (snd (take_chunk s n)) = buf s" by (rule take_chunk_split)
  from next_msg_step [of s parse] obtain c where "step_ok s (next_msg parse s) c" ..
  then have "buf s = c @ buf (snd (next_msg parse s)) \<and>
        (\<forall>v. fst (next_msg parse s) = Inr (Bytes v) \<longrightarrow> v = c)"
    by (auto simp: step_ok_def)
  then show "\<exists>c. buf s = c @ buf (snd (next_msg parse s)) \<and>
        (\<forall>v. fst (next_msg parse s) = Inr (Bytes v) \<longrightarrow> v = c)" ..
  show "\<exists>c. buf s = c @ buf (snd (snd (get_msgs parse s)))" by (rule get_msgs_suffix)
  show "\<forall>v s'. next_msg parse s = (Inr v, s') \<and> v \<noteq> PyNone \<longrightarrow>
      get_msgs parse s = (v # fst (get_msgs parse s'), snd (get_msgs parse s'))"
    by (auto simp: get_msgs_yield)
qed

text \<open>The noise byte is yielded once; what follows is computed from the remaining \<open>$\<close>.\<close>

theorem removed_bytes_never_revisited_witness:
  "buf (feed \<lparr>buf = [0x41, 0x24]\<rparr> [0x47]) = [0x41, 0x24, 0x47] \<and>
   next_msg (\<lambda>d. Inr d) \<lparr>buf = [0x41, 0x24]\<rparr> = (Inr (Bytes [0x41]), \<lparr>buf = [0x24]\<rparr>) \<and>
   get_msgs (\<lambda>d. Inr d) \<lparr>buf = [0x41, 0x24]\<rparr> = ([Bytes [0x41]], None, \<lparr>buf = [0x24]\<rparr>)"
proof -
  let ?p = "(\<lambda>d. Inr d) :: bytes \<Rightarrow> error + bytes"
  let ?s = "\<lparr>buf = [0x41, 0x24 :: byte]\<rparr>"
  have n: "next_msg ?p ?s = (Inr (Bytes [0x41]), \<lparr>buf = [0x24]\<rparr>)" by (rule next_A_dollar)
  have "next_msg ?p \<lparr>buf = [0x24]\<rparr> = (Inr PyNone, \<lparr>buf = [0x24]\<rparr>)"
    by (simp add: next_msg_def find_bytes_def take_nmea_def)
  then have g: "get_msgs ?p \<lparr>buf = [0x24]\<rparr> = ([], None, \<lparr>buf = [0x24]\<rparr>)"
    by (rule get_msgs_none)
  from removed_bytes_never_revisited [of ?s "[0x47]" 0 ?p] n
  have "buf (feed ?s [0x47]) = buf ?s @ [0x47]" and
    "get_msgs ?p ?s =
       (Bytes [0x41] # fst (get_msgs ?p \<lparr>buf = [0x24]\<rparr>), snd (get_msgs ?p \<lparr>buf = [0x24]\<rparr>))"
    by auto
  with n g show ?thesis by simp
qed

lemma occurs_at_take:
  "occurs_at sub (take k b) j \<Longrightarrow> occurs_at sub b j \<and> j + length sub \<le> k"
proof -
  assume h: "occurs_at sub (take k b) j"
  then have l: "j + length sub \<le> length (take k b)"
    and e: "take (length sub) (drop j (take k b)) = sub" by (auto simp: occurs_at_def)
  from l have lk: "j + length sub \<le> k" and lb: "j + length sub \<le> length b" by simp_all
  have "drop j (take k b) = take (k - j) (drop j b)" by (simp add: drop_take)
  then have "take (length sub) (drop j (take k b)) = take (length sub) (drop j b)"
    using lk by (simp add: min_def)
  with e lb lk show ?thesis by (simp add: occurs_at_def)
qed

lemma find_bytes_prefix_none:
  "sub \<noteq> [] \<Longrightarrow> \<forall>j<k. \<not> occurs_at sub b j \<Longrightarrow> find_bytes (take k b) sub = -1"
proof -
  assume s: "sub \<noteq> []" and h: "\<forall>j<k. \<not> occurs_at sub b j"
  have "\<not> occurs_at sub (take k b) j" for j
  proof
    assume "occurs_at sub (take k b) j"
    from occurs_at_take [OF this] s have "occurs_at sub b j" "j < k"
      by (auto simp: Suc_le_eq dest: le_trans [of "Suc j" "j + length sub" k, rotated])
    with h show False by blast
  qed
  then show ?thesis by (simp add: find_bytes_none)
qed

lemma find_bytes_before:
  "find_bytes b sub = -1 \<or> int k \<le> find_bytes b sub \<Longrightarrow> \<forall>j<k. \<not> occurs_at sub b j"
proof (rule find_bytes_cases [of b sub])
  assume "\<forall>j. \<not> occurs_at sub b j"
  then show ?thesis by blast
next
  fix m assume a: "find_bytes b sub = -1 \<or> int k \<le> find_bytes b sub"
    and m: "find_bytes b sub = int m" "\<forall>j<m. \<not> occurs_at sub b j"
  from a m(1) have "k \<le> m" by simp
  with m(2) show ?thesis by auto
qed

lemma noise_prefix:
  "0 < k \<Longrightarrow> k \<le> length b \<Longrightarrow>
   find_bytes b [0x24] = -1 \<or> int k \<le> find_bytes b [0x24] \<Longrightarrow>
   find_bytes b [0xB5, 0x62] = -1 \<or> int k \<le> find_bytes b [0xB5, 0x62] \<Longrightarrow>
   is_noise (Bytes (take k b))"
proof -
  assume k: "0 < k" "k \<le> length b"
    and n: "find_bytes b [0x24] = -1 \<or> int k \<le> find_bytes b [0x24]"
    and u: "find_bytes b [0xB5, 0x62] = -1 \<or> int k \<le> find_bytes b [0xB5, 0x62]"
  from k have "take k b \<noteq> []" by auto
  moreover have "find_bytes (take k b) [0x24] = -1"
    by (rule find_bytes_prefix_none [OF _ find_bytes_before [OF n]]) simp
  moreover have "find_bytes (take k b) [0xB5, 0x62] = -1"
    by (rule find_bytes_prefix_none [OF _ find_bytes_before [OF u]]) simp
  ultimately show ?thesis by (simp add: is_noise_def)
qed

lemma take_nmea_kind:
  "take_nmea parse s = (Inr v, s') \<Longrightarrow> v = PyNone \<or> is_message v"
proof (rule find_bytes_cases [of "buf s" "[0x0D, 0x0A]"])
  assume "take_nmea parse s = (Inr v, s')" "find_bytes (buf s) [0x0D, 0x0A] = -1"
  then show ?thesis by (simp add: take_nmea_absent)
next
  fix k assume "take_nmea parse s = (Inr v, s')" "find_bytes (buf s) [0x0D, 0x0A] = int k"
  then show ?thesis
    by (auto simp: take_nmea_present is_message_def split: sum.splits)
qed

lemma take_ubx_kind:
  "take 2 (buf s) = [0xB5, 0x62] \<Longrightarrow> next_msg parse s = (Inr v, s') \<Longrightarrow>
   v = PyNone \<or> is_message v"
proof -
  assume h: "take 2 (buf s) = [0xB5, 0x62]" and r: "next_msg parse s = (Inr v, s')"
  show ?thesis
  proof (cases "6 \<le> length (buf s) \<and> declared_length (buf s) + 8 \<le> length (buf s)")
    case True
    with r have "v = Bytes (take (declared_length (buf s) + 8) (buf s))"
      by (simp add: next_msg_marker [OF h])
    moreover have "take 2 (take (declared_length (buf s) + 8) (buf s)) = take 2 (buf s)"
      by (simp add: min_def)
    ultimately show ?thesis using h by (simp add: is_message_def)
  next
    case False
    with r show ?thesis by (auto simp: next_msg_marker [OF h] split: if_splits)
  qed
qed

lemma next_msg_kind:
  "next_msg parse s = (Inr v, s') \<Longrightarrow> v = PyNone \<or> is_message v \<or> is_noise v"
proof -
  assume r: "next_msg parse s = (Inr v, s')"
  show ?thesis
  proof (cases "find_bytes (buf s) [0x24] = 0")
    case True
    with r take_nmea_kind [of parse s v s'] show ?thesis by (auto simp: next_msg_nmea)
  next
    case n0: False
    show ?thesis
    proof (cases "find_bytes (buf s) [0xB5, 0x62] = 0")
      case True
      then have "take 2 (buf s) = [0xB5, 0x62]"
        by (simp add: find_bytes_zero occurs_at_def numeral_2_eq_2)
      from take_ubx_kind [OF this r] show ?thesis by blast
    next
      case u0: False
      show ?thesis
      proof (rule find_bytes_cases [of "buf s" "[0x24]"]; rule find_bytes_cases [of "buf s" "[0xB5, 0x62]"])
        assume "find_bytes (buf s) [0x24] = -1" "find_bytes (buf s) [0xB5, 0x62] = -1"
        with r show ?thesis by (simp add: next_msg_none)
      next
        fix u assume h: "find_bytes (buf s) [0x24] = -1" "find_bytes (buf s) [0xB5, 0x62] = int u"
        from u0 h have u: "0 < u" by simp
        from find_bytes_bound [OF h(2)] have "u \<le> length (buf s)" by simp
        from noise_prefix [OF u this] h have "is_noise (Bytes (take u (buf s)) :: 'a pyval)" by simp
        moreover from r have "v = Bytes (take u (buf s))"
          by (simp add: next_msg_skip_ubx [OF h u])
        ultimately show ?thesis by simp
      next
        fix n assume h: "find_bytes (buf s) [0x24] = int n" "find_bytes (buf s) [0xB5, 0x62] = -1"
        from n0 h have n: "0 < n" by simp
        from find_bytes_bound [OF h(1)] have "n \<le> length (buf s)" by simp
        from noise_prefix [OF n this] h have "is_noise (Bytes (take n (buf s)) :: 'a pyval)" by simp
        moreover from r have "v = Bytes (take n (buf s))"
          by (simp add: next_msg_skip_nmea [OF h n])
        ultimately show ?thesis by simp
      next
        fix u n
        assume h: "find_bytes (buf s) [0x24] = int n" "find_bytes (buf s) [0xB5, 0x62] = int u"
        from n0 u0 h have p: "0 < n" "0 < u" by simp_all
        then have k: "0 < min n u" by simp
        from find_bytes_bound [OF h(1)] have "min n u \<le> length (buf s)" by simp
        from noise_prefix [OF k this] h
        have "is_noise (Bytes (take (min n u) (buf s)) :: 'a pyval)" by simp
        moreover from r have "v = Bytes (take (min n u) (buf s))"
          by (simp add: next_msg_skip_both [OF h p])
        ultimately show ?thesis by simp
      qed
    qed
  qed
qed

lemma get_msgs_kinds:
  "list_all (\<lambda>v. is_message v \<or> is_noise v) (fst (get_msgs parse s))"
proof (induction parse s rule: get_msgs.induct)
  case (1 parse s)
  obtain r s' where rs: "next_msg parse s = (r, s')" by (cases "next_msg parse s")
  show ?case
  proof (cases r)
    case (Inl e)
    with rs show ?thesis by (simp add: get_msgs_raise)
  next
    case (Inr v)
    show ?thesis
    proof (cases "v = PyNone")
      case True
      with rs Inr show ?thesis by (simp add: get_msgs_none)
    next
      case False
      from rs Inr next_msg_kind [of parse s v s'] False
      have "is_message v \<or> is_noise v" by simp
      moreover from "1.IH" [of r s' v] rs Inr False
      have "list_all (\<lambda>v. is_message v \<or> is_noise v) (fst (get_msgs parse s'))" by simp
      ultimately show ?thesis
        by (simp add: get_msgs_yield [of parse s v s'] rs Inr False)
    qed
  qed
qed

lemma next_msg_skip:
  "find_bytes (buf s) [0x24] \<noteq> 0 \<Longrightarrow> find_bytes (buf s) [0xB5, 0x62] \<noteq> 0 \<Longrightarrow>
   0 < find_bytes (buf s) [0x24] \<or> 0 < find_bytes (buf s) [0xB5, 0x62] \<Longrightarrow>
   0 < skip_length (buf s) \<and> skip_length (buf s) \<le> length (buf s) \<and>
   is_noise (Bytes (take (skip_length (buf s)) (buf s)) :: 'n pyval) \<and>
   next_msg (parse :: bytes \<Rightarrow> error + 'n) s =
     (Inr (Bytes (take (skip_length (buf s)) (buf s))),
      s\<lparr>buf := drop (skip_length (buf s)) (buf s)\<rparr>)"
proof -
  assume n0: "find_bytes (buf s) [0x24] \<noteq> 0" and u0: "find_bytes (buf s) [0xB5, 0x62] \<noteq> 0"
    and pos: "0 < find_bytes (buf s) [0x24] \<or> 0 < find_bytes (buf s) [0xB5, 0x62]"
  show ?thesis
  proof (rule find_bytes_cases [of "buf s" "[0x24]"]; rule find_bytes_cases [of "buf s" "[0xB5, 0x62]"])
    assume "find_bytes (buf s) [0x24] = -1" "find_bytes (buf s) [0xB5, 0x62] = -1"
    with pos show ?thesis by simp
  next
    fix u assume h: "find_bytes (buf s) [0x24] = -1" "find_bytes (buf s) [0xB5, 0x62] = int u"
    from u0 h have u: "0 < u" by simp
    from h u have k: "skip_length (buf s) = u" by (simp add: skip_length_def)
    from find_bytes_bound [OF h(2)] have le: "u \<le> length (buf s)" by simp
    from noise_prefix [OF u le] h have "is_noise (Bytes (take u (buf s)) :: 'n pyval)" by simp
    with u le show ?thesis by (simp add: k next_msg_skip_ubx [OF h u])
  next
    fix n assume h: "find_bytes (buf s) [0x24] = int n" "find_bytes (buf s) [0xB5, 0x62] = -1"
    from n0 h have n: "0 < n" by simp
    from h n have k: "skip_length (buf s) = n" by (simp add: skip_length_def)
    from find_bytes_bound [OF h(1)] have le: "n \<le> length (buf s)" by simp
    from noise_prefix [OF n le] h have "is_noise (Bytes (take n (buf s)) :: 'n pyval)" by simp
    with n le show ?thesis by (simp add: k next_msg_skip_nmea [OF h n])
  next
    fix u n
    assume h: "find_bytes (buf s) [0x24] = int n" "find_bytes (buf s) [0xB5, 0x62] = int u"
    from n0 u0 h have p: "0 < n" "0 < u" by simp_all
    then have m: "0 < min n u" by simp
    from h p have k: "skip_length (buf s) = min n u" by (simp add: skip_length_def)
    from find_bytes_bound [OF h(1)] have le: "min n u \<le> length (buf s)" by simp
    from noise_prefix [OF m le] h
    have "is_noise (Bytes (take (min n u) (buf s)) :: 'n pyval)" by simp
    with m le show ?thesis by (simp add: k next_msg_skip_both [OF h p])
  qed
qed

text \<open>
  C1, as the code has it. Every value yielded by \<open>get_msgs\<close> is an NMEA sentence
  object, a UBX frame (a byte string that starts with 0xB5 0x62), or a skipped noise span
  (a non-empty byte string that contains neither \<open>$\<close> nor 0xB5 0x62). Whenever no
  marker is at offset 0 and a marker occurs further on, the detection step removes the
  span before the nearest marker from the front of the buffer and returns it, \<open>get_msgs\<close>
  yields that span to the caller as its next value, and the values after it are those of
  \<open>get_msgs\<close> on the rest of the buffer.
\<close>

theorem skipped_noise_is_yielded:
  "list_all (\<lambda>v. is_message v \<or> is_noise v)
     (fst (get_msgs (parse :: bytes \<Rightarrow> error + 'n) s)) \<and>
   (find_bytes (buf s) [0x24] \<noteq> 0 \<and> find_bytes (buf s) [0xB5, 0x62] \<noteq> 0 \<and>
    (0 < find_bytes (buf s) [0x24] \<or> 0 < find_bytes (buf s) [0xB5, 0x62]) \<longrightarrow>
      0 < skip_length (buf s) \<and> skip_length (buf s) \<le> length (buf s) \<and>
      is_noise (Bytes (take (skip_length (buf s)) (buf s)) :: 'n pyval) \<and>
      next_msg parse s =
        (Inr (Bytes (take (skip_length (buf s)) (buf s))),
         s\<lparr>buf := drop (skip_length (buf s)) (buf s)\<rparr>) \<and>
      get_msgs parse s =
        (Bytes (take (skip_length (buf s)) (buf s)) #
           fst (get_msgs parse (s\<lparr>buf := drop (skip_length (buf s)) (buf s)\<rparr>)),
         snd (get_msgs parse (s\<lparr>buf := drop (skip_length (buf s)) (buf s)\<rparr>))))"
proof (intro conjI impI)
  show "list_all (\<lambda>v. is_message v \<or> is_noise v) (fst (get_msgs parse s))"
    by (rule get_msgs_kinds)
next
  assume "find_bytes (buf s) [0x24] \<noteq> 0 \<and> find_bytes (buf s) [0xB5, 0x62] \<noteq> 0 \<and>
    (0 < find_bytes (buf s) [0x24] \<or> 0 < find_bytes (buf s) [0xB5, 0x62])"
  then have k: "0 < skip_length (buf s) \<and> skip_length (buf s) \<le> length (buf s) \<and>
      is_noise (Bytes (take (skip_length (buf s)) (buf s)) :: 'n pyval) \<and>
      next_msg parse s =
        (Inr (Bytes (take (skip_length (buf s)) (buf s))),
         s\<lparr>buf := drop (skip_length (buf s)) (buf s)\<rparr>)"
    by (intro next_msg_skip) auto
  then show "0 < skip_length (buf s)" "skip_length (buf s) \<le> length (buf s)"
    "is_noise (Bytes (take (skip_length (buf s)) (buf s)) :: 'n pyval)"
    "next_msg parse s =
        (Inr (Bytes (take (skip_length (buf s)) (buf s))),
         s\<lparr>buf := drop (skip_length (buf s)) (buf s)\<rparr>)"
    by simp_all
  from k show "get_msgs parse s =
        (Bytes (take (skip_length (buf s)) (buf s)) #
           fst (get_msgs parse (s\<lparr>buf := drop (skip_length (buf s)) (buf s)\<rparr>)),
         snd (get_msgs parse (s\<lparr>buf := drop (skip_length (buf s)) (buf s)\<rparr>)))"
    by (intro get_msgs_yield) auto
qed

text \<open>
  C1 as stated fails: on the buffer \<open>A$\<close> the sequence of \<open>get_msgs\<close> is the noise
  byte \<open>A\<close>, which is neither an NMEA sentence nor a UBX frame. The decoder is not
  called on this buffer.
\<close>

theorem noise_is_yielded_counterexample:
  "\<not> list_all is_message
       (fst (get_msgs (parse_py3 :: bytes \<Rightarrow> error + unit) \<lparr>buf = [0x41, 0x24]\<rparr>)) \<and>
   get_msgs (parse_py3 :: bytes \<Rightarrow> error + unit) \<lparr>buf = [0x41, 0x24]\<rparr> =
     ([Bytes [0x41]], None, \<lparr>buf = [0x24]\<rparr>)"
proof -
  let ?p = "parse_py3 :: bytes \<Rightarrow> error + unit"
  have a: "next_msg ?p \<lparr>buf = [0x41, 0x24]\<rparr> = (Inr (Bytes [0x41]), \<lparr>buf = [0x24]\<rparr>)"
    by (rule next_A_dollar)
  have b: "next_msg ?p \<lparr>buf = [0x24]\<rparr> = (Inr PyNone, \<lparr>buf = [0x24]\<rparr>)"
    by (simp add: next_msg_def find_bytes_def take_nmea_def)
  have "get_msgs ?p \<lparr>buf = [0x41, 0x24]\<rparr> = ([Bytes [0x41]], None, \<lparr>buf = [0x24]\<rparr>)"
    by (simp add: get_msgs_yield [OF a] get_msgs_none [OF b])
  then show ?thesis by (simp add: is_message_def)
qed

text \<open>Two noise bytes before a \<open>$\<close> are yielded as one byte string.\<close>

theorem skipped_noise_is_yielded_witness:
  "find_bytes (buf \<lparr>buf = [0x41, 0x42, 0x24]\<rparr>) [0x24] = 2 \<and>
   find_bytes (buf \<lparr>buf = [0x41, 0x42, 0x24]\<rparr>) [0xB5, 0x62] = -1 \<and>
   skip_length (buf \<lparr>buf = [0x41, 0x42, 0x24]\<rparr>) = 2 \<and>
   next_msg (parse_py3 :: bytes \<Rightarrow> error + unit) \<lparr>buf = [0x41, 0x42, 0x24]\<rparr> =
     (Inr (Bytes [0x41, 0x42]), \<lparr>buf = [0x24]\<rparr>) \<and>
   get_msgs (parse_py3 :: bytes \<Rightarrow> error + unit) \<lparr>buf = [0x41, 0x42, 0x24]\<rparr> =
     ([Bytes [0x41, 0x42]], None, \<lparr>buf = [0x24]\<rparr>)"
proof -
  let ?p = "parse_py3 :: bytes \<Rightarrow> error + unit"
  let ?s = "\<lparr>buf = [0x41, 0x42, 0x24 :: byte]\<rparr>"
  have f: "find_bytes [0x41, 0x42, 0x24] [0x24] = 2" "find_bytes [0x41, 0x42, 0x24] [0xB5, 0x62] = -1"
    by (simp_all add: find_bytes_def)
  then have k: "skip_length [0x41, 0x42, 0x24] = 2" by (simp add: skip_length_def)
  have t: "take 2 [0x41, 0x42, 0x24 :: byte] = [0x41, 0x42]" "drop 2 [0x41, 0x42, 0x24 :: byte] = [0x24]"
    by (simp_all add: numeral_2_eq_2)
  have "next_msg ?p \<lparr>buf = [0x24]\<rparr> = (Inr PyNone, \<lparr>buf = [0x24]\<rparr>)"
    by (simp add: next_msg_def find_bytes_def take_nmea_def)
  then have g: "get_msgs ?p \<lparr>buf = [0x24]\<rparr> = ([], None, \<lparr>buf = [0x24]\<rparr>)"
    by (rule get_msgs_none)
  from skipped_noise_is_yielded [of ?p ?s] show ?thesis
    by (simp add: f k t g)
qed

section \<open>Chunked input and re-parsing of outbound frames\<close>

lemma find_bytes_take_none:
  "\<forall>j. j + length sub \<le> k \<longrightarrow> \<not> occurs_at sub b j \<Longrightarrow> find_bytes (take k b) sub = -1"
proof -
  assume h: "\<forall>j. j + length sub \<le> k \<longrightarrow> \<not> occurs_at sub b j"
  have "\<not> occurs_at sub (take k b) j" for j
  proof
    assume "occurs_at sub (take k b) j"
    from occurs_at_take [OF this] h show False by blast
  qed
  then show ?thesis by (simp add: find_bytes_none)
qed

lemma sentence_prefix_not_ready:
  assumes d: "take 1 sentence = [0x24]"
    and k: "find_bytes sentence [0x0D, 0x0A] = int k" "length sentence = k + 2"
    and q: "q @ r = sentence" "r \<noteq> []"
  shows "next_msg parse \<lparr>buf = q\<rparr> = (Inr PyNone, \<lparr>buf = q\<rparr>)"
proof (cases "q = []")
  case True
  then show ?thesis by (simp add: next_msg_empty)
next
  case False
  then obtain x q' where xq: "q = x # q'" by (cases q) auto
  with d q(1) have "x = 0x24" by auto
  with xq have "occurs_at [0x24] q 0" by (simp add: occurs_at_def)
  then have n: "find_bytes q [0x24] = 0" by (simp add: find_bytes_zero)
  have first: "\<forall>j<k. \<not> occurs_at [0x0D, 0x0A] sentence j"
    by (rule find_bytes_cases [of sentence "[0x0D, 0x0A]"]) (use k(1) in auto)
  from q k(2) have lq: "length q < k + 2" by (metis length_append length_greater_0_conv less_add_same_cancel1)
  have tq: "take (length q) sentence = q" using q(1) by auto
  have "find_bytes (take (length q) sentence) [0x0D, 0x0A] = -1"
  proof (rule find_bytes_take_none, intro allI impI)
    fix j assume "j + length [0x0D, 0x0A :: byte] \<le> length q"
    with lq have "j < k" by simp
    with first show "\<not> occurs_at [0x0D, 0x0A] sentence j" by blast
  qed
  with tq have "find_bytes q [0x0D, 0x0A] = -1" by simp
  with n show ?thesis by (simp add: next_msg_nmea take_nmea_absent)
qed

lemma sentence_complete:
  assumes d: "take 1 sentence = [0x24]"
    and k: "find_bytes sentence [0x0D, 0x0A] = int k" "length sentence = k + 2"
  shows "next_msg parse \<lparr>buf = sentence\<rparr> =
     (case parse sentence of Inl e \<Rightarrow> Inl e | Inr n \<Rightarrow> Inr (Nmea n), \<lparr>buf = []\<rparr>)"
proof -
  from d k(2) have "occurs_at [0x24] sentence 0" by (simp add: occurs_at_def)
  then have "find_bytes (buf \<lparr>buf = sentence\<rparr>) [0x24] = 0" by (simp add: find_bytes_zero)
  then have "next_msg parse \<lparr>buf = sentence\<rparr> = take_nmea parse \<lparr>buf = sentence\<rparr>"
    by (rule next_msg_nmea)
  moreover have "find_bytes (buf \<lparr>buf = sentence\<rparr>) [0x0D, 0x0A] = int k" using k(1) by simp
  ultimately show ?thesis using k(2) by (simp add: take_nmea_present)
qed

lemma get_msgs_sentence:
  assumes d: "take 1 sentence = [0x24]"
    and k: "find_bytes sentence [0x0D, 0x0A] = int k" "length sentence = k + 2"
  shows "get_msgs parse \<lparr>buf = sentence\<rparr> =
     (case parse sentence of
        Inl e \<Rightarrow> ([], Some e, \<lparr>buf = []\<rparr>)
      | Inr n \<Rightarrow> ([Nmea n], None, \<lparr>buf = []\<rparr>))"
proof (cases "parse sentence")
  case (Inl e)
  with sentence_complete [OF d k, of parse]
  have "next_msg parse \<lparr>buf = sentence\<rparr> = (Inl e, \<lparr>buf = []\<rparr>)" by simp
  then show ?thesis using Inl by (simp add: get_msgs_raise)
next
  case (Inr n)
  with sentence_complete [OF d k, of parse]
  have "next_msg parse \<lparr>buf = sentence\<rparr> = (Inr (Nmea n), \<lparr>buf = []\<rparr>)" by simp
  moreover have "next_msg parse \<lparr>buf = []\<rparr> = (Inr PyNone, \<lparr>buf = []\<rparr>)"
    by (rule next_msg_empty) simp
  ultimately show ?thesis using Inr by (simp add: get_msgs_yield get_msgs_none)
qed

lemma stream_loop_sentence:
  assumes d: "take 1 sentence = [0x24]"
    and k: "find_bytes sentence [0x0D, 0x0A] = int k" "length sentence = k + 2"
  shows "q @ concat chunks = sentence \<Longrightarrow> \<forall>c\<in>set chunks. c \<noteq> [] \<Longrightarrow> chunks \<noteq> [] \<Longrightarrow>
     stream_loop parse \<lparr>buf = q\<rparr> chunks =
       (replicate (length chunks - 1) [] @
          [case parse sentence of Inl e \<Rightarrow> [] | Inr n \<Rightarrow> [Nmea n]],
        case parse sentence of Inl e \<Rightarrow> Some e | Inr n \<Rightarrow> None,
        \<lparr>buf = []\<rparr>)"
proof (induction chunks arbitrary: q)
  case Nil
  then show ?case by simp
next
  case (Cons c cs)
  from Cons.prems have c: "c \<noteq> []" by simp
  have f: "feed \<lparr>buf = q\<rparr> c = \<lparr>buf = q @ c\<rparr>" by (simp add: feed_def)
  show ?case
  proof (cases "cs = []")
    case True
    with Cons.prems have "q @ c = sentence" by simp
    with get_msgs_sentence [OF d k, of parse]
    have "get_msgs parse \<lparr>buf = q @ c\<rparr> =
     (case parse sentence of
        Inl e \<Rightarrow> ([], Some e, \<lparr>buf = []\<rparr>)
      | Inr n \<Rightarrow> ([Nmea n], None, \<lparr>buf = []\<rparr>))" by simp
    with c f True show ?thesis by (simp split: sum.splits)
  next
    case False
    with Cons.prems have "concat cs \<noteq> []" by (cases cs) auto
    moreover from Cons.prems have "(q @ c) @ concat cs = sentence" by simp
    ultimately have "next_msg parse \<lparr>buf = q @ c\<rparr> = (Inr PyNone, \<lparr>buf = q @ c\<rparr>)"
      by (intro sentence_prefix_not_ready [OF d k])
    then have g: "get_msgs parse \<lparr>buf = q @ c\<rparr> = ([], None, \<lparr>buf = q @ c\<rparr>)"
      by (rule get_msgs_none)
    from Cons.prems False
    have "stream_loop parse \<lparr>buf = q @ c\<rparr> cs =
       (replicate (length cs - 1) [] @
          [case parse sentence of Inl e \<Rightarrow> [] | Inr n \<Rightarrow> [Nmea n]],
        case parse sentence of Inl e \<Rightarrow> Some e | Inr n \<Rightarrow> None,
        \<lparr>buf = []\<rparr>)"
      by (intro Cons.IH) auto
    moreover from False have "replicate (length (c # cs) - 1) ([] :: 'a pyval list) =
        [] # replicate (length cs - 1) []"
      by (cases cs) auto
    ultimately show ?thesis using c f g by simp
  qed
qed

lemma gga_sentence_shape:
  "take 1 gga_sentence = [0x24]" "find_bytes gga_sentence [0x0D, 0x0A] = int 74"
  "length gga_sentence = 74 + 2"
  by (simp_all add: gga_sentence_def find_bytes_def)

text \<open>
  C9 fails on the code under Python 3. The sentence \<open>gga_sentence\<close> is fed into a fresh
  parser one byte at a time, with \<open>get_msgs\<close> drained after each byte. Every one of
  the 76 steps yields nothing: the 75 steps before the final LF because the sentence is
  incomplete (as the claim says), and the last step because \<open>_take_nmea\<close> hands the
  \<open>bytes\<close> to the decoder, which raises \<open>TypeError\<close>; the sentence has left the
  buffer and no decoded sentence is yielded.
\<close>

theorem nmea_sentence_decoder_raises:
  "test_stream_parser (parse_py3 :: bytes \<Rightarrow> error + unit) (map (\<lambda>c. [c]) gga_sentence) =
     (replicate 76 [], Some TypeError, \<lparr>buf = []\<rparr>)"
proof -
  let ?p = "parse_py3 :: bytes \<Rightarrow> error + unit"
  let ?chunks = "map (\<lambda>c. [c]) gga_sentence"
  have c: "[] @ concat ?chunks = gga_sentence" by simp
  have n: "\<forall>c\<in>set ?chunks. c \<noteq> []" by auto
  have l: "length ?chunks = 76" using gga_sentence_shape(3) by simp
  then have e: "?chunks \<noteq> []" by auto
  have r: "replicate (76 - 1) ([] :: unit pyval list) @ [[]] = replicate 76 []"
  proof -
    have "replicate (Suc 75) ([] :: unit pyval list) = [] # replicate 75 []"
      by (rule replicate_Suc)
    then have "replicate 76 ([] :: unit pyval list) = [] # replicate 75 []" by simp
    then show ?thesis by (simp add: replicate_append_same)
  qed
  from stream_loop_sentence [OF gga_sentence_shape c n e, of ?p]
  have "stream_loop ?p \<lparr>buf = []\<rparr> ?chunks =
      (replicate (76 - 1) [] @ [[]], Some TypeError, \<lparr>buf = []\<rparr>)"
    by (simp only: l) (simp add: parse_py3_def)
  then show ?thesis by (simp only: r test_stream_parser_def init_def)
qed

lemma unat_le_uint16:
  "n \<le> 65535 \<Longrightarrow>
   unat (word_of_nat (n mod 256) :: byte) + 256 * unat (word_of_nat (n div 256) :: byte) = n"
proof -
  assume h: "n \<le> 65535"
  have "unat (word_of_nat (n mod 256) :: byte) = n mod 256"
    by (simp add: unat_of_nat)
  moreover from h have "n div 256 < 256" by simp
  then have "unat (word_of_nat (n div 256) :: byte) = n div 256"
    by (simp add: unat_of_nat)
  ultimately show ?thesis by simp
qed

lemma next_trailer:
  "next_msg parse \<lparr>buf = [0x10, 0x13]\<rparr> = (Inr PyNone, \<lparr>buf = [0x10, 0x13]\<rparr>)"
  by (simp add: next_msg_def find_bytes_def)

text \<open>
  C10, for a message whose \<open>msg_id\<close> has exactly 2 bytes (the constructor does not
  check this) and whose payload has at most 65535 bytes: feeding \<open>serialise m\<close> into
  a fresh parser yields exactly one value, the first payload length + 8 bytes of the
  frame, and the trailing bytes 0x10 0x13 stay in the buffer.
\<close>

theorem serialise_not_reparsed_whole:
  "length (msg_id m) = 2 \<Longrightarrow> length (payload m) \<le> 65535 \<Longrightarrow>
   \<exists>frame. serialise m = Inr frame \<and> length frame = length (payload m) + 10 \<and>
     next_msg parse (feed init frame) =
       (Inr (Bytes (take (length (payload m) + 8) frame)), \<lparr>buf = [0x10, 0x13]\<rparr>) \<and>
     get_msgs parse (feed init frame) =
       ([Bytes (take (length (payload m) + 8) frame)], None, \<lparr>buf = [0x10, 0x13]\<rparr>)"
proof -
  assume h: "length (msg_id m) = 2" "length (payload m) \<le> 65535"
  let ?L = "length (payload m)"
  from h(1) obtain i0 i1 where mid: "msg_id m = [i0, i1]"
    by (cases "msg_id m"; cases "tl (msg_id m)") auto
  from ubx_checksum_length [of "msg_id m @ le_uint16 ?L @ payload m"] obtain ck where
    ck: "ubx_checksum (msg_id m @ le_uint16 ?L @ payload m) = Inr ck" "length ck = 2" by blast
  define body where "body = msg_id m @ le_uint16 ?L @ payload m @ ck"
  define frame where "frame = 0xB5 # 0x62 # body @ [0x10, 0x13]"
  have lb: "length body = ?L + 6" using ck(2) by (simp add: body_def mid le_uint16_def)
  have ser: "serialise m = Inr frame"
    using ck(1) by (simp add: serialise_def struct_pack_H_le [OF h(2)] Let_def frame_def body_def)
  have len: "length frame = ?L + 10" using lb by (simp add: frame_def)
  define s where "s = feed init frame"
  have b: "buf s = frame" by (simp add: s_def feed_def init_def)
  have mk: "take 2 (buf s) = [0xB5, 0x62]" by (simp add: b frame_def numeral_2_eq_2)
  have "frame ! 4 = word_of_nat (?L mod 256)" "frame ! 5 = word_of_nat (?L div 256)"
    by (simp_all add: frame_def body_def mid le_uint16_def)
  then have dl: "declared_length frame = ?L"
    using unat_le_uint16 [OF h(2)] by (simp add: declared_length_def)
  have "drop (?L + 8) ((0xB5 # 0x62 # body) @ [0x10, 0x13]) = [0x10, 0x13]"
    using lb by (subst drop_append) simp
  then have dr: "drop (?L + 8) frame = [0x10, 0x13]" by (simp add: frame_def)
  have s0: "s\<lparr>buf := [0x10, 0x13]\<rparr> = \<lparr>buf = [0x10, 0x13]\<rparr>"
    by (simp add: s_def feed_def init_def)
  have n: "next_msg parse s = (Inr (Bytes (take (?L + 8) frame)), \<lparr>buf = [0x10, 0x13]\<rparr>)"
    using len by (simp add: next_msg_marker [OF mk] dl b dr s0)
  have "get_msgs parse s = ([Bytes (take (?L + 8) frame)], None, \<lparr>buf = [0x10, 0x13]\<rparr>)"
    by (simp add: get_msgs_yield [OF n] get_msgs_none [OF next_trailer])
  with ser len n show ?thesis unfolding s_def by blast
qed

text \<open>The message of the specification's example.\<close>

theorem serialise_not_reparsed_whole_witness:
  "serialise \<lparr>msg_id = [0x06, 0x01], payload = [0xAB, 0xCD]\<rparr> =
     Inr [0xB5, 0x62, 0x06, 0x01, 0x02, 0x00, 0xAB, 0xCD, 0x81, 0x54, 0x10, 0x13] \<and>
   get_msgs (parse_py3 :: bytes \<Rightarrow> error + unit)
     (feed init [0xB5, 0x62, 0x06, 0x01, 0x02, 0x00, 0xAB, 0xCD, 0x81, 0x54, 0x10, 0x13]) =
     ([Bytes [0xB5, 0x62, 0x06, 0x01, 0x02, 0x00, 0xAB, 0xCD, 0x81, 0x54]], None,
      \<lparr>buf = [0x10, 0x13]\<rparr>)"
proof -
  let ?p = "parse_py3 :: bytes \<Rightarrow> error + unit"
  let ?m = "\<lparr>msg_id = [0x06, 0x01], payload = [0xAB, 0xCD :: byte]\<rparr>"
  have h1: "length (msg_id ?m) = 2" by simp
  have h2: "length (payload ?m) \<le> 65535" by simp
  have ck: "ubx_checksum [0x06, 0x01, 0x02, 0x00, 0xAB, 0xCD] = Inr [0x81, 0x54]"
    by (simp add: ubx_checksum_def iter_ints_def checksum_step_def Let_def struct_pack_BB_def
        and_255_mod)
  have ser: "serialise ?m =
     Inr [0xB5, 0x62, 0x06, 0x01, 0x02, 0x00, 0xAB, 0xCD, 0x81, 0x54, 0x10, 0x13]"
    using ck by (simp add: serialise_def struct_pack_H_def Let_def)
  from serialise_not_reparsed_whole [OF h1 h2, of ?p] ser show ?thesis
    by (auto simp: eval_nat_numeral)
qed

text \<open>
  C10 as stated, for every message, fails: with an empty \<open>msg_id\<close> and an empty payload
  the outbound frame is B5 62 00 00 00 00 10 13, the parser reads the length from the
  checksum bytes, and one unit consumes all 8 bytes, the trailing marker included.
\<close>

theorem serialise_reparsed_whole_counterexample:
  "serialise \<lparr>msg_id = [], payload = []\<rparr> =
     Inr [0xB5, 0x62, 0x00, 0x00, 0x00, 0x00, 0x10, 0x13] \<and>
   get_msgs (parse_py3 :: bytes \<Rightarrow> error + unit)
     (feed init [0xB5, 0x62, 0x00, 0x00, 0x00, 0x00, 0x10, 0x13]) =
     ([Bytes [0xB5, 0x62, 0x00, 0x00, 0x00, 0x00, 0x10, 0x13]], None, \<lparr>buf = []\<rparr>)"
proof -
  let ?p = "parse_py3 :: bytes \<Rightarrow> error + unit"
  let ?f = "[0xB5, 0x62, 0x00, 0x00, 0x00, 0x00, 0x10, 0x13 :: byte]"
  have ck: "ubx_checksum [0x00, 0x00] = Inr [0x00, 0x00]"
    by (simp add: ubx_checksum_def iter_ints_def checksum_step_def Let_def struct_pack_BB_def)
  have ser: "serialise \<lparr>msg_id = [], payload = []\<rparr> = Inr ?f"
    using ck by (simp add: serialise_def struct_pack_H_def Let_def)
  have b: "feed init ?f = \<lparr>buf = ?f\<rparr>" by (simp add: feed_def init_def)
  have mk: "take 2 (buf \<lparr>buf = ?f\<rparr>) = [0xB5, 0x62]" by (simp add: numeral_2_eq_2)
  have dl: "declared_length ?f = 0" by (simp add: declared_length_def)
  have n: "next_msg ?p \<lparr>buf = ?f\<rparr> = (Inr (Bytes ?f), \<lparr>buf = []\<rparr>)"
    by (simp add: next_msg_marker [OF mk] dl)
  have e: "next_msg ?p \<lparr>buf = []\<rparr> = (Inr PyNone, \<lparr>buf = []\<rparr>)"
    by (rule next_msg_empty) simp
  have "get_msgs ?p \<lparr>buf = ?f\<rparr> = ([Bytes ?f], None, \<lparr>buf = []\<rparr>)"
    by (simp add: get_msgs_yield [OF n] get_msgs_none [OF e])
  with ser b show ?thesis by simp
qed

end
